theory Spec2Isabelle
  imports Main "HOL-Library.Char_ord" "HOL-Library.List_Lexorder"
begin

section \<open>The directory indexer \<^verbatim>\<open>build_directory_md.py\<close>\<close>

text \<open>
  The script walks the tree under the current directory, keeps the \<^verbatim>\<open>.rs\<close> files,
  sorts their paths by lower-cased text and renders a nested markdown outline.

  Scope of the model. Python strings are modelled as \<^typ>\<open>string\<close>; names are taken
  to be ASCII, and a character outside \<^verbatim>\<open>A-Z\<close>, \<^verbatim>\<open>a-z\<close> is treated as uncased
  by \<open>str_lower\<close> and \<open>title\<close>. The path functions are those of \<^verbatim>\<open>posixpath\<close>
  (\<^verbatim>\<open>os.sep\<close> is \<^verbatim>\<open>/\<close>). Strings compare as Python compares them, position by
  position on the character codes. A directory is the list of its file names and the
  list of its named subdirectories, both in the order \<^verbatim>\<open>os.walk\<close> reports them;
  symbolic links are not modelled.
\<close>

subsection \<open>Built-in string operations\<close>

definition nl :: char where
  "nl = CHR 0x0A"

definition is_upper :: "char \<Rightarrow> bool" where
  "is_upper c = (CHR ''A'' \<le> c \<and> c \<le> CHR ''Z'')"

definition is_lower :: "char \<Rightarrow> bool" where
  "is_lower c = (CHR ''a'' \<le> c \<and> c \<le> CHR ''z'')"

definition lower_char :: "char \<Rightarrow> char" where
  "lower_char c = (if is_upper c then char_of (of_char c + (32::nat)) else c)"

definition upper_char :: "char \<Rightarrow> char" where
  "upper_char c = (if is_lower c then char_of (of_char c - (32::nat)) else c)"

text \<open>\<^verbatim>\<open>str.lower\<close>.\<close>

definition str_lower :: "string \<Rightarrow> string" where
  "str_lower s = map lower_char s"

text \<open>
  \<^verbatim>\<open>str.title\<close>: the flag says whether the previous character was cased. A cased
  character after an uncased one is upper-cased, one after a cased one lower-cased.
\<close>

fun title_from :: "bool \<Rightarrow> string \<Rightarrow> string" where
  "title_from previous_is_cased [] = []"
| "title_from previous_is_cased (c # cs) =
     (if is_lower c then
        (if previous_is_cased then c else upper_char c) # title_from True cs
      else if is_upper c then
        (if previous_is_cased then lower_char c else c) # title_from True cs
      else c # title_from False cs)"

definition title :: "string \<Rightarrow> string" where
  "title s = title_from False s"

text \<open>\<^verbatim>\<open>s.replace(a, b)\<close> for a one-character \<open>a\<close>.\<close>

definition replace :: "char \<Rightarrow> string \<Rightarrow> string \<Rightarrow> string" where
  "replace a b s = concat (map (\<lambda>c. if c = a then b else [c]) s)"

text \<open>\<^verbatim>\<open>s.lstrip(chars)\<close> and \<^verbatim>\<open>s.rstrip(chars)\<close>: every leading (trailing) character
  that occurs in \<open>chars\<close> goes.\<close>

definition lstrip :: "string \<Rightarrow> string \<Rightarrow> string" where
  "lstrip chars s = dropWhile (\<lambda>c. c \<in> set chars) s"

definition rstrip :: "string \<Rightarrow> string \<Rightarrow> string" where
  "rstrip chars s = rev (dropWhile (\<lambda>c. c \<in> set chars) (rev s))"

text \<open>\<^verbatim>\<open>s.rfind(c)\<close>: the index of the last occurrence, \<open>-1\<close> when there is none.\<close>

fun rfind :: "char \<Rightarrow> string \<Rightarrow> int" where
  "rfind c [] = -1"
| "rfind c (x # xs) =
     (let r = rfind c xs in if 0 \<le> r then r + 1 else if x = c then 0 else -1)"

text \<open>\<^verbatim>\<open>s.split(c)\<close>: the pieces between the separators, never an empty list.\<close>

fun split :: "char \<Rightarrow> string \<Rightarrow> string list" where
  "split c [] = [[]]"
| "split c (x # xs) =
     (if x = c then [] # split c xs
      else (case split c xs of [] \<Rightarrow> [[x]] | w # ws \<Rightarrow> (x # w) # ws))"

text \<open>\<^verbatim>\<open>s.count(c)\<close> for a one-character \<open>c\<close>.\<close>

definition count :: "string \<Rightarrow> char \<Rightarrow> nat" where
  "count s c = length (filter (\<lambda>x. x = c) s)"

text \<open>\<^verbatim>\<open>sep.join(xs)\<close>.\<close>

fun str_join :: "string \<Rightarrow> string list \<Rightarrow> string" where
  "str_join s [] = []"
| "str_join s [x] = x"
| "str_join s (x # y # ys) = x @ s @ str_join s (y # ys)"

subsection \<open>\<^verbatim>\<open>os.path\<close>\<close>

definition sep :: char where
  "sep = CHR ''/''"

text \<open>\<^verbatim>\<open>os.path.join(a, b)\<close>.\<close>

definition join :: "string \<Rightarrow> string \<Rightarrow> string" where
  "join a b =
     (if b \<noteq> [] \<and> hd b = sep then b
      else if a = [] \<or> last a = sep then a @ b
      else a @ [sep] @ b)"

text \<open>\<^verbatim>\<open>os.path.split(p)\<close>: the head loses its trailing slashes unless it is made of
  slashes only.\<close>

definition path_split :: "string \<Rightarrow> string \<times> string" where
  "path_split p =
     (let i = nat (rfind sep p + 1);
          head = take i p;
          tail = drop i p
      in (if head \<noteq> [] \<and> head \<noteq> replicate (length head) sep
          then rstrip [sep] head else head, tail))"

text \<open>
  \<^verbatim>\<open>os.path.splitext(p)\<close>: the extension starts at the last dot, provided that dot
  comes after the last slash and some character between the two is not a dot.
\<close>

definition splitext :: "string \<Rightarrow> string \<times> string" where
  "splitext p =
     (let sepIndex = rfind sep p;
          dotIndex = rfind (CHR ''.'') p
      in if dotIndex > sepIndex \<and>
            list_ex (\<lambda>c. c \<noteq> CHR ''.'')
              (take (nat (dotIndex - (sepIndex + 1))) (drop (nat (sepIndex + 1)) p))
         then (take (nat dotIndex) p, drop (nat dotIndex) p)
         else (p, []))"

subsection \<open>The file system\<close>

datatype dir = Dir (filenames: "string list") (subdirs: "(string \<times> dir) list")

text \<open>A file system resolves a starting directory to the tree found there, if any.\<close>

type_synonym filesystem = "string \<Rightarrow> dir option"

datatype error = IndexError

subsection \<open>\<^verbatim>\<open>good_filepaths\<close>\<close>

definition fs_exts :: "string list" where
  "fs_exts = [''.rs'']"

text \<open>\<^verbatim>\<open>[d for d in dirnames if d[0] not in "._"]\<close>; \<^verbatim>\<open>d[0]\<close> raises on an empty name.\<close>

fun keep_dirnames :: "(string \<times> dir) list \<Rightarrow> error + (string \<times> dir) list" where
  "keep_dirnames [] = Inr []"
| "keep_dirnames ((d, t) # rest) =
     (case d of
        [] \<Rightarrow> Inl IndexError
      | c # _ \<Rightarrow>
          (case keep_dirnames rest of
             Inl e \<Rightarrow> Inl e
           | Inr kept \<Rightarrow> Inr (if c \<notin> set ''._'' then (d, t) # kept else kept)))"

definition good_file :: "string \<Rightarrow> bool" where
  "good_file filename =
     (filename \<noteq> ''mod.rs'' \<and> str_lower (snd (splitext filename)) \<in> set fs_exts)"

definition yield_files :: "string \<Rightarrow> string list \<Rightarrow> string list" where
  "yield_files dirpath fns =
     map (\<lambda>filename. lstrip ''./'' (join dirpath filename)) (filter good_file fns)"

text \<open>
  The walk of \<^verbatim>\<open>os.walk\<close>, top down: the files of a directory first, then the kept
  subdirectories in order, each under \<^verbatim>\<open>os.path.join(dirpath, d)\<close>.
\<close>

function walk :: "string \<Rightarrow> dir \<Rightarrow> error + string list"
  and walk_dirs :: "string \<Rightarrow> (string \<times> dir) list \<Rightarrow> error + string list" where
  "walk dirpath (Dir fns subs) =
     (case keep_dirnames subs of
        Inl e \<Rightarrow> Inl e
      | Inr kept \<Rightarrow>
          (case walk_dirs dirpath kept of
             Inl e \<Rightarrow> Inl e
           | Inr below \<Rightarrow> Inr (yield_files dirpath fns @ below)))"
| "walk_dirs dirpath [] = Inr []"
| "walk_dirs dirpath ((d, t) # rest) =
     (case walk (join dirpath d) t of
        Inl e \<Rightarrow> Inl e
      | Inr here \<Rightarrow>
          (case walk_dirs dirpath rest of
             Inl e \<Rightarrow> Inl e
           | Inr later \<Rightarrow> Inr (here @ later)))"
  by pat_completeness auto
termination
proof (relation "measure (\<lambda>x. case x of
          Inl (p, t) \<Rightarrow> Suc (size t)
        | Inr (p, ts) \<Rightarrow> size_list (size_prod (\<lambda>_. 0) size) ts)", goal_cases)
  case 1
  then show ?case by simp
next
  case (2 dirpath fns subs kept)
  have shrink: "keep_dirnames xs = Inr ys \<Longrightarrow>
      size_list (size_prod (\<lambda>_. 0) size) ys \<le> size_list (size_prod (\<lambda>_. 0) size) xs"
    for xs ys
  proof (induction xs arbitrary: ys)
    case Nil
    then show ?case by simp
  next
    case (Cons a xs)
    then show ?case
      by (cases a) (auto split: list.splits sum.splits if_splits)
  qed
  from shrink [OF 2] show ?case by simp
next
  case (3 dirpath d t rest)
  then show ?case by simp
next
  case (4 dirpath d t rest here)
  then show ?case by simp
qed

definition good_filepaths :: "string \<Rightarrow> filesystem \<Rightarrow> error + string list" where
  "good_filepaths top_dir fs =
     (case fs top_dir of None \<Rightarrow> Inr [] | Some t \<Rightarrow> walk top_dir t)"

subsection \<open>The output accumulator and the emitters\<close>

definition URL_BASE :: string where
  "URL_BASE = ''https://github.com/TheAlgorithms/Rust/blob/master''"

text \<open>
  The global list \<^verbatim>\<open>g_output\<close> and what \<^verbatim>\<open>print\<close> wrote, one entry per call.
\<close>

record state =
  g_output :: "string list"
  stdout :: "string list"

definition init_state :: state where
  "init_state = \<lparr>g_output = [], stdout = []\<rparr>"

text \<open>A line goes to \<^verbatim>\<open>print\<close> and then to \<^verbatim>\<open>g_output.append\<close>.\<close>

definition emit :: "string \<Rightarrow> state \<Rightarrow> state" where
  "emit line st = st\<lparr>stdout := stdout st @ [line], g_output := g_output st @ [line]\<rparr>"

definition md_prefix :: "nat \<Rightarrow> string" where
  "md_prefix i = (if i \<noteq> 0 then concat (replicate i ''  '') @ ''*'' else nl # ''##'')"

text \<open>
  The loop of \<^verbatim>\<open>print_path\<close> over \<^verbatim>\<open>enumerate(new_path.split(os.sep))\<close>, from
  index \<open>i\<close> on.
\<close>

fun print_parts :: "string list \<Rightarrow> nat \<Rightarrow> string list \<Rightarrow> state \<Rightarrow> state" where
  "print_parts old_parts i [] st = st"
| "print_parts old_parts i (new_part # rest) st =
     print_parts old_parts (i + 1) rest
       (if i + 1 > length old_parts \<or> old_parts ! i \<noteq> new_part then
          (if new_part \<noteq> [] then
             emit (md_prefix i @ '' '' @ title (replace (CHR ''_'') '' '' new_part)) st
           else st)
        else st)"

definition print_path :: "string \<Rightarrow> string \<Rightarrow> state \<Rightarrow> string \<times> state" where
  "print_path old_path new_path st =
     (new_path, print_parts (split sep old_path) 0 (split sep new_path) st)"

subsection \<open>\<^verbatim>\<open>build_directory_md\<close>\<close>

text \<open>The body of the loop for one path: the cursor \<open>old_path\<close> and the state go
  in and come out.\<close>

definition file_step :: "string \<Rightarrow> string \<times> state \<Rightarrow> string \<times> state" where
  "file_step path acc =
     (let (old_path, st) = acc;
          (filepath, filename) = path_split path;
          (old_path, st) =
             (if filepath \<noteq> old_path then print_path old_path filepath st
              else (old_path, st));
          indent = (if filepath \<noteq> [] then count filepath sep + 1 else 0);
          url = replace (CHR '' '') ''%20'' (str_join ''/'' [URL_BASE, filepath, filename]);
          filename = fst (splitext (title (replace (CHR ''_'') '' '' filename)))
      in (old_path, emit (md_prefix indent @ '' ['' @ filename @ '']('' @ url @ '')'') st))"

text \<open>
  \<^verbatim>\<open>build_directory_md(top_dir)\<close>. The call \<^verbatim>\<open>good_filepaths()\<close> passes no
  argument, so the walk starts at the default \<^verbatim>\<open>"."\<close>. \<^verbatim>\<open>sorted\<close> is stable, as is
  \<open>sort_key\<close>. The function returns the document and leaves the state behind.
\<close>

definition build_directory_md ::
    "string \<Rightarrow> filesystem \<Rightarrow> state \<Rightarrow> error + string \<times> state" where
  "build_directory_md top_dir fs st =
     (case good_filepaths ''.'' fs of
        Inl e \<Rightarrow> Inl e
      | Inr paths \<Rightarrow>
          (let (old_path, st') = fold file_step (sort_key str_lower paths) ([], st)
           in Inr (''# List of all files'' @ [nl] @ str_join [nl] (g_output st'), st')))"

text \<open>
  A run of the script. Line 7 gives the accumulator its initial value \<^verbatim>\<open>[]\<close>, the last
  two lines call \<^verbatim>\<open>build_directory_md(".")\<close> and write the document and a newline to
  \<^verbatim>\<open>DIRECTORY.md\<close>. The state that goes in stands for whatever came before the run
  (what the terminal already shows, what an earlier run left); the result is the text
  written, with the state at the end of the run.
\<close>

definition script :: "filesystem \<Rightarrow> state \<Rightarrow> error + string \<times> state" where
  "script fs st =
     (case build_directory_md ''.'' fs (st\<lparr>g_output := []\<rparr>) of
        Inl e \<Rightarrow> Inl e
      | Inr (doc, st') \<Rightarrow> Inr (doc @ [nl], st'))"

subsection \<open>What a run appends\<close>

text \<open>The document a call returns, without the state it leaves.\<close>

definition returned :: "error + string \<times> state \<Rightarrow> error + string" where
  "returned r = (case r of Inl e \<Rightarrow> Inl e | Inr (doc, st) \<Rightarrow> Inr doc)"

definition emit_all :: "string list \<Rightarrow> state \<Rightarrow> state" where
  "emit_all ls st = st\<lparr>stdout := stdout st @ ls, g_output := g_output st @ ls\<rparr>"

text \<open>The lines \<open>print_parts\<close> emits, as a list.\<close>

fun part_lines :: "string list \<Rightarrow> nat \<Rightarrow> string list \<Rightarrow> string list" where
  "part_lines old_parts i [] = []"
| "part_lines old_parts i (new_part # rest) =
     (if (i + 1 > length old_parts \<or> old_parts ! i \<noteq> new_part) \<and> new_part \<noteq> []
      then [md_prefix i @ '' '' @ title (replace (CHR ''_'') '' '' new_part)] else [])
     @ part_lines old_parts (i + 1) rest"

text \<open>The directory lines that precede a file's entry when the cursor is \<open>old_path\<close>.\<close>

definition dir_lines :: "string \<Rightarrow> string \<Rightarrow> string list" where
  "dir_lines old_path filepath =
     (if filepath \<noteq> old_path then part_lines (split sep old_path) 0 (split sep filepath)
      else [])"

definition indent_of :: "string \<Rightarrow> nat" where
  "indent_of filepath = (if filepath \<noteq> [] then count filepath sep + 1 else 0)"

text \<open>The entry of one file, from its path.\<close>

definition entry_line :: "string \<Rightarrow> string" where
  "entry_line path =
     (let (filepath, filename) = path_split path
      in md_prefix (indent_of filepath)
         @ '' ['' @ fst (splitext (title (replace (CHR ''_'') '' '' filename)))
         @ '']('' @ replace (CHR '' '') ''%20'' (str_join ''/'' [URL_BASE, filepath, filename])
         @ '')'')"

text \<open>All lines of a run over the paths in processing order, the cursor starting at
  \<open>old_path\<close>.\<close>

fun run_lines :: "string \<Rightarrow> string list \<Rightarrow> string list" where
  "run_lines old_path [] = []"
| "run_lines old_path (p # ps) =
     dir_lines old_path (fst (path_split p)) @ [entry_line p]
     @ run_lines (fst (path_split p)) ps"

subsection \<open>Example trees\<close>

text \<open>A file system in which only the current directory resolves.\<close>

definition cwd_only :: "dir \<Rightarrow> filesystem" where
  "cwd_only t = (\<lambda>p. if p = ''.'' then Some t else None)"

definition sorting_tree :: dir where
  "sorting_tree = Dir [] [(''sorting'', Dir [''quick_sort.rs'', ''bubble_sort.rs''] [])]"

definition sorting_doc_flat :: string where
  "sorting_doc_flat = str_join [nl]
     [''# List of all files'',
      '''',
      ''## Sorting'',
      ''* [Bubble Sort]('' @ URL_BASE @ ''/sorting/bubble_sort.rs)'',
      ''* [Quick Sort]('' @ URL_BASE @ ''/sorting/quick_sort.rs)'']"

definition sorting_doc :: string where
  "sorting_doc = str_join [nl]
     [''# List of all files'',
      '''',
      ''## Sorting'',
      ''  * [Bubble Sort]('' @ URL_BASE @ ''/sorting/bubble_sort.rs)'',
      ''  * [Quick Sort]('' @ URL_BASE @ ''/sorting/quick_sort.rs)'']"

text \<open>Two directories, and a file system in which \<^verbatim>\<open>sorting\<close> resolves as well.\<close>

definition two_dirs_tree :: dir where
  "two_dirs_tree =
     Dir [] [(''searching'', Dir [''binary_search.rs''] []),
             (''sorting'', Dir [''bubble_sort.rs''] [])]"

definition two_dirs_fs :: filesystem where
  "two_dirs_fs =
     (\<lambda>p. if p = ''.'' then Some two_dirs_tree
          else if p = ''sorting'' then Some (Dir [''bubble_sort.rs''] [])
          else None)"

definition two_dirs_doc :: string where
  "two_dirs_doc = str_join [nl]
     [''# List of all files'',
      '''',
      ''## Searching'',
      ''  * [Binary Search]('' @ URL_BASE @ ''/searching/binary_search.rs)'',
      '''',
      ''## Sorting'',
      ''  * [Bubble Sort]('' @ URL_BASE @ ''/sorting/bubble_sort.rs)'']"

text \<open>Two calls in one process: the second starts from the state the first left.\<close>

definition twice :: "filesystem \<Rightarrow> error + string \<times> string" where
  "twice fs =
     (case build_directory_md ''.'' fs init_state of
        Inl e \<Rightarrow> Inl e
      | Inr (doc1, st1) \<Rightarrow>
          (case build_directory_md ''.'' fs st1 of
             Inl e \<Rightarrow> Inl e
           | Inr (doc2, st2) \<Rightarrow> Inr (doc1, doc2)))"

text \<open>
  Two runs of the script, one after the other, on the same file system: the second run
  starts from the state the first one ended in. The pair holds what each run wrote (or
  the error it ended with).
\<close>

definition run_twice :: "filesystem \<Rightarrow> state \<Rightarrow> (error + string) \<times> (error + string)" where
  "run_twice fs st =
     (case script fs st of
        Inl e \<Rightarrow> (Inl e, returned (script fs st))
      | Inr (out1, st1) \<Rightarrow> (Inr out1, returned (script fs st1)))"

definition sorting_doc_repeated :: string where
  "sorting_doc_repeated = str_join [nl]
     [''# List of all files'',
      '''',
      ''## Sorting'',
      ''  * [Bubble Sort]('' @ URL_BASE @ ''/sorting/bubble_sort.rs)'',
      ''  * [Quick Sort]('' @ URL_BASE @ ''/sorting/quick_sort.rs)'',
      '''',
      ''## Sorting'',
      ''  * [Bubble Sort]('' @ URL_BASE @ ''/sorting/bubble_sort.rs)'',
      ''  * [Quick Sort]('' @ URL_BASE @ ''/sorting/quick_sort.rs)'']"

subsection \<open>Notions the properties are stated with\<close>

text \<open>The directory portion of a path as the loop computes it.\<close>

definition dirname :: "string \<Rightarrow> string" where
  "dirname p = fst (path_split p)"

text \<open>The first piece of a directory path, the one \<open>print_parts\<close> sees at index 0.\<close>

definition top_segment :: "string \<Rightarrow> string" where
  "top_segment d = hd (split sep d)"

text \<open>A line that starts with the marker of depth 0.\<close>

definition is_heading :: "string \<Rightarrow> bool" where
  "is_heading l = (take (length (md_prefix 0)) l = md_prefix 0)"

text \<open>The cursor when the \<open>k\<close>-th path of the list is processed: empty at the start,
  then the directory of the path before.\<close>

definition cursor_at :: "string list \<Rightarrow> nat \<Rightarrow> string" where
  "cursor_at ps k = (if k = 0 then [] else dirname (ps ! (k - 1)))"

text \<open>The lines appended while the \<open>k\<close>-th path is processed: the directory lines, if
  any, then the entry.\<close>

definition file_lines_at :: "string list \<Rightarrow> nat \<Rightarrow> string list" where
  "file_lines_at ps k =
     dir_lines (cursor_at ps k) (dirname (ps ! k)) @ [entry_line (ps ! k)]"

text \<open>The state that the run on \<open>sorting_tree\<close> leaves.\<close>

definition sorting_lines :: "string list" where
  "sorting_lines =
     [nl # ''## Sorting'',
      ''  * [Bubble Sort]('' @ URL_BASE @ ''/sorting/bubble_sort.rs)'',
      ''  * [Quick Sort]('' @ URL_BASE @ ''/sorting/quick_sort.rs)'']"

definition sorting_state :: state where
  "sorting_state = \<lparr>g_output = sorting_lines, stdout = sorting_lines\<rparr>"

subsection \<open>Directories the walk reaches, and trees with parts removed\<close>

text \<open>A directory name that the filter of \<open>keep_dirnames\<close> drops.\<close>

definition hidden :: "string \<Rightarrow> bool" where
  "hidden d = (case d of [] \<Rightarrow> False | c # _ \<Rightarrow> c \<in> set ''._'')"

text \<open>
  \<open>visited top_dir t dirpath t'\<close>: the walk of \<open>t\<close> from \<open>top_dir\<close> reaches the directory
  \<open>t'\<close> and reports it under \<open>dirpath\<close>. The root is reached; from a reached directory
  the walk descends into each subdirectory whose name is kept.
\<close>

inductive visited :: "string \<Rightarrow> dir \<Rightarrow> string \<Rightarrow> dir \<Rightarrow> bool" for top_dir :: string and t :: dir where
  root: "visited top_dir t top_dir t"
| sub: "visited top_dir t dirpath (Dir fns subs) \<Longrightarrow> (d, t') \<in> set subs \<Longrightarrow> d \<noteq> [] \<Longrightarrow>
        \<not> hidden d \<Longrightarrow> visited top_dir t (join dirpath d) t'"

text \<open>The tree without its hidden directories, at every level.\<close>

primrec prune :: "dir \<Rightarrow> dir" where
  "prune (Dir fns subs) =
     Dir fns (filter (\<lambda>x. \<not> hidden (fst x)) (map (map_prod id prune) subs))"

text \<open>The tree without the files named \<^verbatim>\<open>mod.rs\<close>, at every level.\<close>

primrec remove_mod :: "dir \<Rightarrow> dir" where
  "remove_mod (Dir fns subs) =
     Dir (filter (\<lambda>f. f \<noteq> ''mod.rs'') fns) (map (map_prod id remove_mod) subs)"

text \<open>Names as a file system has them: not empty, no separator inside.\<close>

definition wf_name :: "string \<Rightarrow> bool" where
  "wf_name n = (n \<noteq> [] \<and> sep \<notin> set n)"

primrec wf_dir :: "dir \<Rightarrow> bool" where
  "wf_dir (Dir fns subs) =
     (list_all wf_name fns \<and>
      list_all (\<lambda>x. wf_name (fst x) \<and> snd x) (map (map_prod id wf_dir) subs))"

text \<open>A current directory with upper-case names and names that start with dots.\<close>

definition odd_names_tree :: dir where
  "odd_names_tree =
     Dir [''MOD.RS'', ''..a.rs'', ''mod.rs'']
         [(''src'', Dir [''Mod.rs'', ''x.Rs'', ''mod.rs''] [])]"

definition odd_names_lines :: "string list" where
  "odd_names_lines =
     [nl # ''## [A]('' @ URL_BASE @ ''//a.rs)'',
      nl # ''## [Mod]('' @ URL_BASE @ ''//MOD.RS)'',
      nl # ''## Src'',
      ''  * [Mod]('' @ URL_BASE @ ''/src/Mod.rs)'',
      ''  * [X]('' @ URL_BASE @ ''/src/x.Rs)'']"

definition odd_names_doc :: string where
  "odd_names_doc = ''# List of all files'' @ [nl] @ str_join [nl] odd_names_lines"

definition odd_names_state :: state where
  "odd_names_state = \<lparr>g_output = odd_names_lines, stdout = odd_names_lines\<rparr>"

text \<open>A current directory with hidden directories at two levels.\<close>

definition hidden_dirs_tree :: dir where
  "hidden_dirs_tree =
     Dir [''a.rs'']
         [(''.git'', Dir [''x.rs''] []),
          (''_build'', Dir [''y.rs''] []),
          (''src'', Dir [''b.rs''] [(''_tmp'', Dir [''z.rs''] []), (''.cache'', Dir [''w.rs''] [])])]"

text \<open>A current directory with an upper-case extension and a dotted \<^verbatim>\<open>mod.rs\<close>.\<close>

definition dotted_tree :: dir where
  "dotted_tree = Dir [''X.RS'', ''.mod.rs''] []"

section \<open>Properties\<close>

subsection \<open>What the loop appends\<close>

lemma emit_all_Nil: "emit_all [] st = st"
  by (simp add: emit_all_def)

lemma emit_all_append: "emit_all (xs @ ys) st = emit_all ys (emit_all xs st)"
  by (simp add: emit_all_def)

lemma emit_eq_emit_all: "emit l st = emit_all [l] st"
  by (simp add: emit_def emit_all_def)

lemma g_output_emit_all: "g_output (emit_all ls st) = g_output st @ ls"
  by (simp add: emit_all_def)

lemma print_parts_lines:
  "print_parts old_parts i parts st = emit_all (part_lines old_parts i parts) st"
proof (induction parts arbitrary: i st)
  case Nil
  show ?case by (simp add: emit_all_Nil)
next
  case (Cons new_part rest)
  show ?case
    by (simp add: Cons.IH emit_eq_emit_all emit_all_append emit_all_Nil del: One_nat_def)
qed

lemma print_path_lines:
  "filepath \<noteq> old_path \<Longrightarrow>
   print_path old_path filepath st = (filepath, emit_all (dir_lines old_path filepath) st)"
  by (simp add: print_path_def dir_lines_def print_parts_lines)

lemma file_step_lines:
  "file_step p (old_path, st) =
     (fst (path_split p),
      emit_all (dir_lines old_path (fst (path_split p)) @ [entry_line p]) st)"
proof (cases "path_split p")
  case (Pair filepath filename)
  show ?thesis
  proof (cases "filepath = old_path")
    case True
    then show ?thesis
      by (simp add: file_step_def Pair entry_line_def indent_of_def dir_lines_def
            emit_eq_emit_all emit_all_append emit_all_Nil)
  next
    case False
    then show ?thesis
      by (simp add: file_step_def Pair entry_line_def indent_of_def print_path_lines
            emit_eq_emit_all emit_all_append)
  qed
qed

lemma fold_file_step:
  "snd (fold file_step ps (old_path, st)) = emit_all (run_lines old_path ps) st"
proof (induction ps arbitrary: old_path st)
  case Nil
  show ?case by (simp add: emit_all_Nil)
next
  case (Cons p ps)
  show ?case
    by (simp add: file_step_lines Cons.IH emit_all_def)
qed

lemma build_directory_md_lines:
  "good_filepaths ''.'' fs = Inr paths \<Longrightarrow>
   build_directory_md top_dir fs st =
     Inr (''# List of all files'' @ [nl]
            @ str_join [nl] (g_output st @ run_lines [] (sort_key str_lower paths)),
          emit_all (run_lines [] (sort_key str_lower paths)) st)"
proof -
  assume a: "good_filepaths ''.'' fs = Inr paths"
  obtain c s' where f: "fold file_step (sort_key str_lower paths) ([], st) = (c, s')"
    by (cases "fold file_step (sort_key str_lower paths) ([], st)")
  have "s' = emit_all (run_lines [] (sort_key str_lower paths)) st"
    using fold_file_step [of "sort_key str_lower paths" "[]" st] f by simp
  then show ?thesis
    by (simp add: build_directory_md_def a f g_output_emit_all)
qed

lemma build_directory_md_error:
  "good_filepaths ''.'' fs = Inl e \<Longrightarrow> build_directory_md top_dir fs st = Inl e"
  by (simp add: build_directory_md_def)

subsection \<open>Prefixes, headings and the lines of each file\<close>

lemma split_not_Nil: "split c s \<noteq> []"
  by (induction s) (auto split: list.splits)

lemma md_prefix_0: "md_prefix 0 = nl # ''##''"
  by (simp add: md_prefix_def)

lemma concat_replicate_pair:
  "concat (replicate d ''  '') = replicate (2 * d) (CHR '' '')"
  by (induction d) simp_all

lemma md_prefix_pos: "1 \<le> d \<Longrightarrow> md_prefix d = replicate (2 * d) (CHR '' '') @ ''*''"
  by (simp add: md_prefix_def concat_replicate_pair)

lemma md_prefix_pos_not_heading: "1 \<le> i \<Longrightarrow> \<not> is_heading (md_prefix i @ rest)"
proof -
  assume "1 \<le> i"
  then obtain j where j: "i = Suc j" by (cases i) auto
  show ?thesis
    by (simp add: j is_heading_def md_prefix_def nl_def)
qed

lemma is_heading_md_prefix_0: "is_heading (md_prefix 0 @ rest)"
  by (simp add: is_heading_def)

lemma part_lines_deep_no_heading:
  "1 \<le> i \<Longrightarrow> l \<in> set (part_lines old_parts i parts) \<Longrightarrow> \<not> is_heading l"
proof (induction parts arbitrary: i)
  case Nil
  then show ?case by simp
next
  case (Cons new_part rest)
  have here: "\<not> is_heading (md_prefix i @ x)" for x
    using Cons.prems(1) by (rule md_prefix_pos_not_heading)
  have later: "l \<in> set (part_lines old_parts (i + 1) rest) \<Longrightarrow> \<not> is_heading l"
    using Cons.IH [of "i + 1"] by simp
  from Cons.prems(2) show ?case
    using here later by (auto simp del: One_nat_def split: if_splits)
qed

lemma dir_lines_heading_iff:
  "(\<exists>l \<in> set (dir_lines old_path filepath). is_heading l)
     \<longleftrightarrow> top_segment filepath \<noteq> top_segment old_path \<and> top_segment filepath \<noteq> []"
proof -
  obtain a as where a: "split sep old_path = a # as"
    using split_not_Nil [of sep old_path] by (cases "split sep old_path") auto
  obtain n ns where n: "split sep filepath = n # ns"
    using split_not_Nil [of sep filepath] by (cases "split sep filepath") auto
  have deep: "\<And>l. l \<in> set (part_lines (a # as) 1 ns) \<Longrightarrow> \<not> is_heading l"
    using part_lines_deep_no_heading [of 1] by simp
  show ?thesis
  proof (cases "filepath = old_path")
    case True
    then show ?thesis by (simp add: dir_lines_def)
  next
    case False
    show ?thesis
      using deep
      by (auto simp: dir_lines_def False top_segment_def a n is_heading_md_prefix_0)
  qed
qed

lemma run_lines_concat:
  "run_lines old_path ps =
     concat (map (\<lambda>k. dir_lines (if k = 0 then old_path else dirname (ps ! (k - 1)))
                         (dirname (ps ! k)) @ [entry_line (ps ! k)]) [0..<length ps])"
proof (induction ps arbitrary: old_path)
  case Nil
  show ?case by simp
next
  case (Cons p ps)
  have shift: "[0..<length (p # ps)] = 0 # map Suc [0..<length ps]"
    by (simp add: upt_conv_Cons map_Suc_upt del: upt_Suc)
  have tl: "map (\<lambda>k. dir_lines (if k = 0 then old_path else dirname ((p # ps) ! (k - 1)))
                     (dirname ((p # ps) ! k)) @ [entry_line ((p # ps) ! k)])
               (map Suc [0..<length ps])
          = map (\<lambda>k. dir_lines (if k = 0 then dirname p else dirname (ps ! (k - 1)))
                     (dirname (ps ! k)) @ [entry_line (ps ! k)]) [0..<length ps]"
    by (auto simp: nth_Cons')
  show ?case
    unfolding shift
    by (simp only: list.map concat.simps tl) (simp add: Cons.IH flip: dirname_def)
qed

lemma run_lines_at: "run_lines [] ps = concat (map (file_lines_at ps) [0..<length ps])"
proof -
  have "file_lines_at ps =
      (\<lambda>k. dir_lines (if k = 0 then [] else dirname (ps ! (k - 1))) (dirname (ps ! k))
             @ [entry_line (ps ! k)])"
    by (rule ext) (simp add: file_lines_at_def cursor_at_def)
  then show ?thesis
    by (simp add: run_lines_concat [of "[]" ps])
qed

lemma sorting_run:
  "build_directory_md ''.'' (cwd_only sorting_tree) init_state = Inr (sorting_doc, sorting_state)"
  by code_simp

lemma build_directory_md_Inr:
  assumes "build_directory_md top_dir fs st = Inr (doc, st')"
  shows "\<exists>paths. good_filepaths ''.'' fs = Inr paths
           \<and> g_output st' = g_output st
               @ concat (map (file_lines_at (sort_key str_lower paths))
                          [0..<length (sort_key str_lower paths)])"
proof (cases "good_filepaths ''.'' fs")
  case (Inl e)
  with assms show ?thesis by (simp add: build_directory_md_error)
next
  case (Inr paths)
  from assms have "st' = emit_all (run_lines [] (sort_key str_lower paths)) st"
    by (simp add: build_directory_md_lines [OF Inr])
  then show ?thesis
    using Inr by (simp add: g_output_emit_all run_lines_at)
qed

lemma sorting_paths:
  "good_filepaths ''.'' (cwd_only sorting_tree)
     = Inr [''sorting/quick_sort.rs'', ''sorting/bubble_sort.rs'']"
  by code_simp

lemma sorting_order:
  "sort_key str_lower [''sorting/quick_sort.rs'', ''sorting/bubble_sort.rs'']
     = [''sorting/bubble_sort.rs'', ''sorting/quick_sort.rs'']"
  by code_simp

subsection \<open>The walk reaches every kept directory\<close>

lemma keep_dirnames_filter:
  "keep_dirnames subs = Inr kept \<Longrightarrow> kept = filter (\<lambda>x. \<not> hidden (fst x)) subs"
proof (induction subs arbitrary: kept)
  case Nil
  then show ?case by simp
next
  case (Cons a subs)
  obtain d t where a: "a = (d, t)" by (cases a)
  from Cons.prems obtain c cs where d: "d = c # cs"
    by (cases d) (auto simp: a)
  from Cons.prems obtain rest where r: "keep_dirnames subs = Inr rest"
    by (cases "keep_dirnames subs") (auto simp: a d)
  from Cons.IH [OF r] Cons.prems show ?case
    by (auto simp: a d r hidden_def)
qed

lemma keep_dirnames_nonempty:
  "keep_dirnames subs = Inr kept \<Longrightarrow> (d, t) \<in> set subs \<Longrightarrow> d \<noteq> []"
proof (induction subs arbitrary: kept)
  case Nil
  then show ?case by simp
next
  case (Cons a subs)
  obtain d' t' where a: "a = (d', t')" by (cases a)
  from Cons.prems(1) obtain c cs where d: "d' = c # cs"
    by (cases d') (auto simp: a)
  from Cons.prems(1) obtain rest where r: "keep_dirnames subs = Inr rest"
    by (cases "keep_dirnames subs") (auto simp: a d)
  from Cons.IH [OF r] Cons.prems(2) show ?case
    by (auto simp: a d)
qed

lemma keep_dirnames_total:
  "(\<And>d t. (d, t) \<in> set subs \<Longrightarrow> d \<noteq> []) \<Longrightarrow>
   keep_dirnames subs = Inr (filter (\<lambda>x. \<not> hidden (fst x)) subs)"
proof (induction subs)
  case Nil
  show ?case by simp
next
  case (Cons a subs)
  obtain d t where a: "a = (d, t)" by (cases a)
  from Cons.prems [of d t] obtain c cs where d: "d = c # cs"
    by (cases d) (auto simp: a)
  have "keep_dirnames subs = Inr (filter (\<lambda>x. \<not> hidden (fst x)) subs)"
    using Cons.prems by (intro Cons.IH) auto
  then show ?case by (simp add: a d hidden_def)
qed

lemma walk_dirs_mem:
  "walk_dirs dirpath ts = Inr below \<Longrightarrow> (d, t) \<in> set ts \<Longrightarrow>
   \<exists>ps. walk (join dirpath d) t = Inr ps \<and> set ps \<subseteq> set below"
proof (induction ts arbitrary: below)
  case Nil
  then show ?case by simp
next
  case (Cons a ts)
  obtain d' t' where a: "a = (d', t')" by (cases a)
  from Cons.prems(1) obtain here where h: "walk (join dirpath d') t' = Inr here"
    by (cases "walk (join dirpath d') t'") (auto simp: a)
  from Cons.prems(1) obtain later where l: "walk_dirs dirpath ts = Inr later"
    by (cases "walk_dirs dirpath ts") (auto simp: a h)
  from Cons.prems(1) have b: "below = here @ later"
    by (simp add: a h l)
  show ?case
  proof (cases "(d, t) = (d', t')")
    case True
    then show ?thesis using h b by auto
  next
    case False
    with Cons.prems(2) have "(d, t) \<in> set ts" by (auto simp: a)
    from Cons.IH [OF l this] show ?thesis using b by auto
  qed
qed

lemma walk_Dir_Inr:
  assumes "walk dirpath (Dir fns subs) = Inr ps"
  obtains below where
    "keep_dirnames subs = Inr (filter (\<lambda>x. \<not> hidden (fst x)) subs)"
    "walk_dirs dirpath (filter (\<lambda>x. \<not> hidden (fst x)) subs) = Inr below"
    "ps = yield_files dirpath fns @ below"
proof -
  from assms obtain kept where k: "keep_dirnames subs = Inr kept"
    by (cases "keep_dirnames subs") auto
  from assms obtain below where b: "walk_dirs dirpath kept = Inr below"
    by (cases "walk_dirs dirpath kept") (auto simp: k)
  from assms have "ps = yield_files dirpath fns @ below"
    by (simp add: k b)
  with k b keep_dirnames_filter [OF k] that show ?thesis by simp
qed

lemma visited_walk:
  "visited top_dir t dirpath t' \<Longrightarrow> walk top_dir t = Inr ps \<Longrightarrow>
   \<exists>ps'. walk dirpath t' = Inr ps' \<and> set ps' \<subseteq> set ps"
proof (induction rule: visited.induct)
  case root
  then show ?case by auto
next
  case (sub dirpath fns subs d t')
  from sub.IH [OF sub.prems] obtain ps' where
    w: "walk dirpath (Dir fns subs) = Inr ps'" and s: "set ps' \<subseteq> set ps"
    by blast
  from w obtain below where
    b: "walk_dirs dirpath (filter (\<lambda>x. \<not> hidden (fst x)) subs) = Inr below" and
    e: "ps' = yield_files dirpath fns @ below"
    by (rule walk_Dir_Inr)
  have "(d, t') \<in> set (filter (\<lambda>x. \<not> hidden (fst x)) subs)"
    using sub.hyps by simp
  from walk_dirs_mem [OF b this] obtain ps'' where
    "walk (join dirpath d) t' = Inr ps''" "set ps'' \<subseteq> set below"
    by blast
  then show ?case using s e by auto
qed

lemma walk_complete:
  assumes "walk top_dir t = Inr ps" "visited top_dir t dirpath (Dir fns subs)"
    "f \<in> set fns" "good_file f"
  shows "lstrip ''./'' (join dirpath f) \<in> set ps"
proof -
  from visited_walk [OF assms(2,1)] obtain ps' where
    w: "walk dirpath (Dir fns subs) = Inr ps'" and s: "set ps' \<subseteq> set ps"
    by blast
  from w obtain below where e: "ps' = yield_files dirpath fns @ below"
    by (rule walk_Dir_Inr)
  have "lstrip ''./'' (join dirpath f) \<in> set (yield_files dirpath fns)"
    using assms(3,4) by (simp add: yield_files_def)
  with e s show ?thesis by auto
qed

subsection \<open>Yielded paths have their entry in the output\<close>

lemma lstrip_join_dot: "lstrip ''./'' (join ''.'' f) = lstrip ''./'' f"
  by (cases f) (auto simp: join_def lstrip_def sep_def)

lemma entry_in_output:
  assumes "build_directory_md top_dir fs st = Inr (doc, st')"
    and "good_filepaths ''.'' fs = Inr paths" and "p \<in> set paths"
  shows "entry_line p \<in> set (g_output st')"
proof -
  let ?ps = "sort_key str_lower paths"
  from build_directory_md_Inr [OF assms(1)] assms(2)
  have g: "g_output st' = g_output st @ concat (map (file_lines_at ?ps) [0..<length ?ps])"
    by auto
  from assms(3) have "p \<in> set ?ps" by simp
  then obtain k where k: "k < length ?ps" "?ps ! k = p"
    by (metis in_set_conv_nth)
  then have "entry_line p \<in> set (file_lines_at ?ps k)"
    by (simp add: file_lines_at_def)
  with k(1) show ?thesis
    unfolding g by auto
qed

lemma good_filepaths_of_build:
  assumes "build_directory_md top_dir fs st = Inr (doc, st')"
  obtains paths where "good_filepaths ''.'' fs = Inr paths"
  using build_directory_md_Inr [OF assms] by blast

lemma odd_names_run:
  "build_directory_md ''.'' (cwd_only odd_names_tree) init_state
     = Inr (odd_names_doc, odd_names_state)"
  by code_simp

lemma odd_names_src_visited:
  "visited ''.'' odd_names_tree ''./src'' (Dir [''Mod.rs'', ''x.Rs'', ''mod.rs''] [])"
proof -
  have r: "visited ''.'' odd_names_tree ''.''
      (Dir [''MOD.RS'', ''..a.rs'', ''mod.rs'']
           [(''src'', Dir [''Mod.rs'', ''x.Rs'', ''mod.rs''] [])])"
    using visited.root [of "''.''" odd_names_tree] by (simp add: odd_names_tree_def)
  have j: "join ''.'' ''src'' = ''./src''"
    by code_simp
  have "visited ''.'' odd_names_tree (join ''.'' ''src'')
      (Dir [''Mod.rs'', ''x.Rs'', ''mod.rs''] [])"
    by (rule visited.sub [OF r]) (simp_all add: hidden_def)
  then show ?thesis by (simp only: j)
qed

lemma odd_case_names:
  "good_file ''Mod.rs'' \<and> good_file ''MOD.RS'' \<and> good_file ''x.RS'' \<and> good_file ''x.Rs''
   \<and> \<not> good_file ''mod.rs''"
  by code_simp

subsection \<open>Hidden directories and files named mod.rs do not matter\<close>

lemma hidden_Nil: "hidden [] = False"
  by (simp add: hidden_def)

lemma hidden_Cons: "hidden (c # cs) = (c \<in> set ''._'')"
  by (simp add: hidden_def)

lemma keep_dirnames_map:
  "keep_dirnames (map (map_prod (\<lambda>x. x) g) subs)
     = (case keep_dirnames subs of
          Inl e \<Rightarrow> Inl e | Inr kept \<Rightarrow> Inr (map (map_prod (\<lambda>x. x) g) kept))"
proof (induction subs)
  case Nil
  show ?case by simp
next
  case (Cons a subs)
  obtain d t where a: "a = (d, t)" by (cases a)
  show ?case
    by (cases d; cases "keep_dirnames subs")
      (simp_all add: a Cons.IH)
qed

lemma keep_dirnames_filter_hidden:
  "keep_dirnames (filter (\<lambda>x. \<not> hidden (fst x)) subs) = keep_dirnames subs"
proof (induction subs)
  case Nil
  show ?case by simp
next
  case (Cons a subs)
  obtain d t where a: "a = (d, t)" by (cases a)
  show ?case
    by (cases d; cases "keep_dirnames subs")
      (simp_all add: a Cons.IH hidden_Nil hidden_Cons del: set_simps)
qed

lemma filter_hidden_map:
  "filter (\<lambda>x. \<not> hidden (fst x)) (map (map_prod (\<lambda>x. x) g) subs)
     = map (map_prod (\<lambda>x. x) g) (filter (\<lambda>x. \<not> hidden (fst x)) subs)"
  by (induction subs) auto

lemma keep_dirnames_prune:
  "keep_dirnames (filter (\<lambda>x. \<not> hidden (fst x)) (map (map_prod (\<lambda>x. x) g) subs))
     = (case keep_dirnames subs of
          Inl e \<Rightarrow> Inl e | Inr kept \<Rightarrow> Inr (map (map_prod (\<lambda>x. x) g) kept))"
  by (simp add: filter_hidden_map keep_dirnames_map keep_dirnames_filter_hidden)

lemma walk_prune_both:
  "walk dirpath (prune t) = walk dirpath t"
  "walk_dirs dirpath (map (map_prod id prune) ts) = walk_dirs dirpath ts"
proof (induction dirpath t and dirpath ts rule: walk_walk_dirs.induct)
  case (1 dirpath fns subs)
  show ?case
  proof (cases "keep_dirnames subs")
    case (Inl e)
    then show ?thesis by (simp add: keep_dirnames_prune id_def)
  next
    case (Inr kept)
    from "1.IH" [OF Inr] show ?thesis
      by (simp add: keep_dirnames_prune Inr id_def)
  qed
next
  case (2 dirpath)
  show ?case by simp
next
  case (3 dirpath d t rest)
  show ?case
  proof (cases "walk (join dirpath d) t")
    case (Inl e)
    then show ?thesis using "3.IH"(1) by (simp add: id_def)
  next
    case (Inr here)
    from "3.IH"(2) [OF Inr] "3.IH"(1) show ?thesis
      by (simp add: Inr id_def)
  qed
qed

lemma yield_files_remove_mod:
  "yield_files dirpath (filter (\<lambda>f. f \<noteq> ''mod.rs'') fns) = yield_files dirpath fns"
proof -
  have "filter good_file (filter (\<lambda>f. f \<noteq> ''mod.rs'') fns) = filter good_file fns"
    by (induction fns) (auto simp: good_file_def)
  then show ?thesis by (simp add: yield_files_def)
qed

lemma walk_remove_mod_both:
  "walk dirpath (remove_mod t) = walk dirpath t"
  "walk_dirs dirpath (map (map_prod id remove_mod) ts) = walk_dirs dirpath ts"
proof (induction dirpath t and dirpath ts rule: walk_walk_dirs.induct)
  case (1 dirpath fns subs)
  show ?case
  proof (cases "keep_dirnames subs")
    case (Inl e)
    then show ?thesis by (simp add: keep_dirnames_map id_def)
  next
    case (Inr kept)
    from "1.IH" [OF Inr] show ?thesis
      by (simp add: keep_dirnames_map Inr yield_files_remove_mod id_def split: sum.splits)
  qed
next
  case (2 dirpath)
  show ?case by simp
next
  case (3 dirpath d t rest)
  show ?case
  proof (cases "walk (join dirpath d) t")
    case (Inl e)
    then show ?thesis using "3.IH"(1) by (simp add: id_def)
  next
    case (Inr here)
    from "3.IH"(2) [OF Inr] "3.IH"(1) show ?thesis
      by (simp add: Inr id_def)
  qed
qed

subsection \<open>Every yielded path comes from a file of a reached directory\<close>

lemma visited_trans:
  "visited b tb c tc \<Longrightarrow> visited a ta b tb \<Longrightarrow> visited a ta c tc"
proof (induction rule: visited.induct)
  case root
  then show ?case .
next
  case (sub dirpath fns subs d t')
  from visited.sub [OF sub.IH [OF sub.prems] sub.hyps(2,3,4)] show ?case .
qed

lemma walk_sound_both:
  "walk dirpath t = Inr ps \<Longrightarrow> p \<in> set ps \<Longrightarrow>
     \<exists>dp fns subs f. visited dirpath t dp (Dir fns subs) \<and> f \<in> set fns \<and> good_file f
        \<and> p = lstrip ''./'' (join dp f)"
  "walk_dirs dirpath ts = Inr ps \<Longrightarrow> p \<in> set ps \<Longrightarrow>
     \<exists>d t dp fns subs f. (d, t) \<in> set ts
        \<and> visited (join dirpath d) t dp (Dir fns subs) \<and> f \<in> set fns \<and> good_file f
        \<and> p = lstrip ''./'' (join dp f)"
proof (induction dirpath t and dirpath ts arbitrary: ps and ps rule: walk_walk_dirs.induct)
  case (1 dirpath fns subs)
  from "1.prems"(1) obtain below where
    k: "keep_dirnames subs = Inr (filter (\<lambda>x. \<not> hidden (fst x)) subs)" and
    b: "walk_dirs dirpath (filter (\<lambda>x. \<not> hidden (fst x)) subs) = Inr below" and
    e: "ps = yield_files dirpath fns @ below"
    by (rule walk_Dir_Inr)
  from "1.prems"(2) e consider
    (here) "p \<in> set (yield_files dirpath fns)" | (below) "p \<in> set below"
    by auto
  then show ?case
  proof cases
    case here
    then obtain f where "f \<in> set fns" "good_file f" "p = lstrip ''./'' (join dirpath f)"
      by (auto simp: yield_files_def)
    with visited.root [of dirpath "Dir fns subs"] show ?thesis by blast
  next
    case below
    from "1.IH" [OF k b below] obtain d t dp fns' subs' f where
      m: "(d, t) \<in> set (filter (\<lambda>x. \<not> hidden (fst x)) subs)" and
      v: "visited (join dirpath d) t dp (Dir fns' subs')" and
      f: "f \<in> set fns'" "good_file f" "p = lstrip ''./'' (join dp f)"
      by blast
    from m have ms: "(d, t) \<in> set subs" and nh: "\<not> hidden d" by auto
    from keep_dirnames_nonempty [OF k ms] have ne: "d \<noteq> []" .
    have "visited dirpath (Dir fns subs) (join dirpath d) t"
      by (rule visited.sub [OF visited.root ms ne nh])
    from visited_trans [OF v this] f show ?thesis by blast
  qed
next
  case (2 dirpath)
  then show ?case by simp
next
  case (3 dirpath d t rest)
  from "3.prems"(1) obtain here where h: "walk (join dirpath d) t = Inr here"
    by (cases "walk (join dirpath d) t") auto
  from "3.prems"(1) obtain later where l: "walk_dirs dirpath rest = Inr later"
    by (cases "walk_dirs dirpath rest") (auto simp: h)
  from "3.prems"(1) have e: "ps = here @ later"
    by (simp add: h l)
  from "3.prems"(2) e consider (here) "p \<in> set here" | (later) "p \<in> set later"
    by auto
  then show ?case
  proof cases
    case here
    from "3.IH"(1) [OF h here] obtain dp fns subs f where
      "visited (join dirpath d) t dp (Dir fns subs)" "f \<in> set fns" "good_file f"
      "p = lstrip ''./'' (join dp f)"
      by blast
    moreover have "(d, t) \<in> set ((d, t) # rest)" by simp
    ultimately show ?thesis by blast
  next
    case later
    from "3.IH"(2) [OF h l later] obtain d' t' dp fns subs f where
      "(d', t') \<in> set rest"
      "visited (join dirpath d') t' dp (Dir fns subs)" "f \<in> set fns" "good_file f"
      "p = lstrip ''./'' (join dp f)"
      by blast
    moreover from this(1) have "(d', t') \<in> set ((d, t) # rest)" by simp
    ultimately show ?thesis by blast
  qed
qed

subsection \<open>Paths, their directory portion and their extension\<close>

lemma rfind_bounds: "- 1 \<le> rfind c s \<and> rfind c s < int (length s)"
  by (induction s) (auto simp: Let_def)

lemma rfind_nonneg_iff: "0 \<le> rfind c s \<longleftrightarrow> c \<in> set s"
  using rfind_bounds [of c] by (induction s) (auto simp: Let_def)

lemma rfind_absent: "c \<notin> set s \<Longrightarrow> rfind c s = - 1"
  using rfind_nonneg_iff [of c s] rfind_bounds [of c s] by linarith

lemma rfind_append:
  "rfind c (xs @ ys) = (if 0 \<le> rfind c ys then int (length xs) + rfind c ys else rfind c xs)"
  using rfind_bounds [of c ys] by (induction xs) (auto simp: Let_def)

lemma rfind_nth: "0 \<le> rfind c s \<Longrightarrow> s ! nat (rfind c s) = c"
proof (induction s)
  case Nil
  then show ?case by simp
next
  case (Cons x xs)
  show ?case
  proof (cases "0 \<le> rfind c xs")
    case True
    then have "nat (rfind c xs + 1) = Suc (nat (rfind c xs))" by simp
    with True Cons.IH show ?thesis by (simp add: Let_def)
  next
    case False
    with Cons.prems show ?thesis by (simp add: Let_def split: if_splits)
  qed
qed

lemma rfind_sep_tail: "sep \<notin> set f \<Longrightarrow> rfind sep (q @ sep # f) = int (length q)"
  by (simp add: rfind_append rfind_absent Let_def)

text \<open>The extension of a name without separator, spelt out.\<close>

lemma splitext_name:
  assumes "sep \<notin> set f"
  shows "snd (splitext f) =
     (if 0 \<le> rfind (CHR ''.'') f
         \<and> list_ex (\<lambda>c. c \<noteq> CHR ''.'') (take (nat (rfind (CHR ''.'') f)) f)
      then drop (nat (rfind (CHR ''.'') f)) f else [])"
  using assms by (simp add: splitext_def Let_def rfind_absent)

lemma splitext_under_dir:
  assumes "sep \<notin> set f"
  shows "snd (splitext (q @ sep # f)) = snd (splitext f)"
proof (cases "CHR ''.'' \<in> set f")
  case True
  then have k: "0 \<le> rfind (CHR ''.'') f" by (simp add: rfind_nonneg_iff)
  have kk: "0 \<le> rfind (CHR ''.'') (sep # f)"
    using k by (simp add: Let_def)
  have d: "rfind (CHR ''.'') (q @ sep # f) = int (length q) + 1 + rfind (CHR ''.'') f"
    using k by (simp add: rfind_append [of _ q] Let_def)
  have n: "nat (int (length q) + 1 + rfind (CHR ''.'') f)
      = length q + 1 + nat (rfind (CHR ''.'') f)"
    using k by simp
  have lhs: "snd (splitext (q @ sep # f)) =
      (if list_ex (\<lambda>c. c \<noteq> CHR ''.'') (take (nat (rfind (CHR ''.'') f)) f)
       then drop (nat (rfind (CHR ''.'') f)) f else [])"
    using k by (simp add: splitext_def Let_def rfind_sep_tail [OF assms] d n nat_add_distrib)
  have rhs: "snd (splitext f) =
      (if list_ex (\<lambda>c. c \<noteq> CHR ''.'') (take (nat (rfind (CHR ''.'') f)) f)
       then drop (nat (rfind (CHR ''.'') f)) f else [])"
    using k by (simp add: splitext_name [OF assms])
  show ?thesis by (simp only: lhs rhs)
next
  case False
  then have a: "rfind (CHR ''.'') (sep # f) = - 1"
    by (simp add: rfind_absent Let_def sep_def)
  have "rfind (CHR ''.'') (q @ sep # f) = rfind (CHR ''.'') q"
    by (simp only: rfind_append [of _ q "sep # f"] a) simp
  moreover have "rfind (CHR ''.'') q < int (length q)"
    using rfind_bounds by blast
  ultimately have "\<not> rfind (CHR ''.'') (q @ sep # f) > rfind sep (q @ sep # f)"
    by (simp add: rfind_sep_tail [OF assms])
  then have "snd (splitext (q @ sep # f)) = []"
    by (simp add: splitext_def Let_def)
  moreover have "snd (splitext f) = []"
    using False by (simp add: splitext_name [OF assms] rfind_absent)
  ultimately show ?thesis by simp
qed


lemma splitext_leading_dot:
  assumes "sep \<notin> set f"
  shows "snd (splitext (CHR ''.'' # f)) = snd (splitext f)"
proof -
  have s: "sep \<notin> set (CHR ''.'' # f)"
    using assms by (simp add: sep_def)
  show ?thesis
  proof (cases "0 \<le> rfind (CHR ''.'') f")
    case True
    then have n: "nat (rfind (CHR ''.'') f + 1) = Suc (nat (rfind (CHR ''.'') f))"
      by simp
    show ?thesis
      using True by (simp add: splitext_name [OF s] splitext_name [OF assms] Let_def n)
  next
    case False
    then show ?thesis
      by (simp add: splitext_name [OF s] splitext_name [OF assms] Let_def)
  qed
qed

lemma splitext_strip_dots:
  "sep \<notin> set f \<Longrightarrow> snd (splitext (dropWhile (\<lambda>c. c = CHR ''.'') f)) = snd (splitext f)"
proof (induction f)
  case Nil
  show ?case by simp
next
  case (Cons c f)
  then have "sep \<notin> set f" by simp
  with Cons.IH splitext_leading_dot [of f] show ?case by simp
qed

lemma path_split_no_sep: "sep \<notin> set p \<Longrightarrow> path_split p = ([], p)"
  by (simp add: path_split_def Let_def rfind_absent)

lemma path_split_under_dir:
  assumes "sep \<notin> set f" "q \<noteq> []" "last q \<noteq> sep"
  shows "path_split (q @ sep # f) = (q, f)"
proof -
  have i: "nat (rfind sep (q @ sep # f) + 1) = Suc (length q)"
    by (simp add: rfind_sep_tail [OF assms(1)])
  have "last q \<in> set (q @ [sep])" using assms(2) by simp
  then have nr: "q @ [sep] \<noteq> replicate (length (q @ [sep])) sep"
    using assms(3) by (metis in_set_replicate)
  have "dropWhile (\<lambda>c. c \<in> set [sep]) (rev q) = rev q"
    using assms(2,3) by (cases "rev q") (auto simp: last_rev [symmetric] hd_rev)
  then have r: "rstrip [sep] (q @ [sep]) = q"
    by (simp add: rstrip_def)
  have t: "take (Suc (length q)) (q @ sep # f) = q @ [sep]" by simp
  have d: "drop (Suc (length q)) (q @ sep # f) = f" by simp
  show ?thesis
    unfolding path_split_def Let_def i t d using nr r by simp
qed

lemma split_no_sep: "c \<notin> set x \<Longrightarrow> split c x = [x]"
  by (induction x) (auto split: list.splits)

lemma split_append_sep: "c \<notin> set x \<Longrightarrow> split c (x @ c # r) = x # split c r"
  by (induction x) (auto split: list.splits)

lemma split_str_join:
  "segs \<noteq> [] \<Longrightarrow> \<forall>s \<in> set segs. c \<notin> set s \<Longrightarrow> split c (str_join [c] segs) = segs"
proof (induction "[c]" segs rule: str_join.induct)
  case 1
  then show ?case by simp
next
  case (2 x)
  then show ?case by (simp add: split_no_sep)
next
  case (3 x y ys)
  then show ?case by (simp add: split_append_sep)
qed

lemma str_join_snoc:
  "segs \<noteq> [] \<Longrightarrow> str_join s (segs @ [d]) = str_join s segs @ s @ d"
  by (induction s segs rule: str_join.induct) auto

lemma str_join_not_Nil:
  "segs \<noteq> [] \<Longrightarrow> \<forall>x \<in> set segs. x \<noteq> [] \<Longrightarrow> str_join s segs \<noteq> []"
  by (induction s segs rule: str_join.induct) auto

lemma str_join_hd:
  "segs \<noteq> [] \<Longrightarrow> hd segs \<noteq> [] \<Longrightarrow> hd (str_join s segs) = hd (hd segs)"
  by (induction s segs rule: str_join.induct) auto

lemma str_join_last:
  "segs \<noteq> [] \<Longrightarrow> \<forall>x \<in> set segs. x \<noteq> [] \<Longrightarrow> last (str_join s segs) = last (last segs)"
proof (induction s segs rule: str_join.induct)
  case (1 s)
  then show ?case by simp
next
  case (2 s x)
  then show ?case by simp
next
  case (3 s x y ys)
  then have "str_join s (y # ys) \<noteq> []"
    by (intro str_join_not_Nil) auto
  with 3 show ?case by simp
qed

subsection \<open>The shape of the yielded paths\<close>

lemma wf_dir_file: "wf_dir (Dir fns subs) \<Longrightarrow> f \<in> set fns \<Longrightarrow> wf_name f"
  by (simp add: list_all_iff)

lemma wf_dir_sub:
  "wf_dir (Dir fns subs) \<Longrightarrow> (d, t) \<in> set subs \<Longrightarrow> wf_name d \<and> wf_dir t"
  by (force simp: list_all_iff)

lemma join_dot_name: "wf_name d \<Longrightarrow> join ''.'' d = ''./'' @ d"
  by (cases d) (auto simp: join_def wf_name_def sep_def)

lemma join_rel_name:
  assumes "wf_name d" "q \<noteq> []" "last q \<noteq> sep"
  shows "join (''./'' @ q) d = ''./'' @ q @ sep # d"
  using assms by (cases d) (auto simp: join_def wf_name_def)

text \<open>Under well-formed names, the directory paths the walk reports from \<^verbatim>\<open>.\<close>.\<close>

lemma visited_shape:
  "visited ''.'' t dp t' \<Longrightarrow> wf_dir t \<Longrightarrow>
   wf_dir t' \<and>
   (dp = ''.'' \<or>
    (\<exists>segs. segs \<noteq> [] \<and> (\<forall>s \<in> set segs. wf_name s \<and> \<not> hidden s)
       \<and> dp = ''./'' @ str_join [sep] segs))"
proof (induction rule: visited.induct)
  case root
  then show ?case by simp
next
  case (sub dirpath fns subs d t')
  from sub.IH [OF sub.prems] have w: "wf_dir (Dir fns subs)" and
    shape: "dirpath = ''.'' \<or>
      (\<exists>segs. segs \<noteq> [] \<and> (\<forall>s \<in> set segs. wf_name s \<and> \<not> hidden s)
         \<and> dirpath = ''./'' @ str_join [sep] segs)"
    by auto
  from wf_dir_sub [OF w sub.hyps(2)] have wd: "wf_name d" and wt: "wf_dir t'" by auto
  from shape show ?case
  proof
    assume "dirpath = ''.''"
    then have "join dirpath d = ''./'' @ str_join [sep] [d]"
      using wd by (simp add: join_dot_name)
    moreover have "\<forall>s \<in> set [d]. wf_name s \<and> \<not> hidden s"
      using wd sub.hyps(4) by simp
    ultimately show ?thesis using wt by blast
  next
    assume "\<exists>segs. segs \<noteq> [] \<and> (\<forall>s \<in> set segs. wf_name s \<and> \<not> hidden s)
         \<and> dirpath = ''./'' @ str_join [sep] segs"
    then obtain segs where s: "segs \<noteq> []" "\<forall>s \<in> set segs. wf_name s \<and> \<not> hidden s"
      and dp: "dirpath = ''./'' @ str_join [sep] segs"
      by blast
    have ne: "\<forall>x \<in> set segs. x \<noteq> []"
      using s(2) by (auto simp: wf_name_def)
    have q: "str_join [sep] segs \<noteq> []"
      by (rule str_join_not_Nil [OF s(1) ne])
    have "last segs \<in> set segs" using s(1) by simp
    then have "wf_name (last segs)" using s(2) by blast
    then have "last (last segs) \<noteq> sep"
      by (auto simp: wf_name_def dest: last_in_set)
    then have l: "last (str_join [sep] segs) \<noteq> sep"
      by (simp add: str_join_last [OF s(1) ne])
    have "join dirpath d = ''./'' @ str_join [sep] segs @ sep # d"
      unfolding dp by (rule join_rel_name [OF wd q l])
    also have "\<dots> = ''./'' @ str_join [sep] (segs @ [d])"
      by (simp add: str_join_snoc [OF s(1)])
    finally have j: "join dirpath d = ''./'' @ str_join [sep] (segs @ [d])" .
    have "\<forall>s \<in> set (segs @ [d]). wf_name s \<and> \<not> hidden s"
      using s(2) wd sub.hyps(4) by simp
    moreover have "segs @ [d] \<noteq> []" by simp
    ultimately show ?thesis using wt j by blast
  qed
qed

lemma lstrip_rel:
  assumes "q \<noteq> []" "hd q \<noteq> CHR ''.''" "hd q \<noteq> CHR ''/''"
  shows "lstrip ''./'' (''./'' @ q @ r) = q @ r"
  using assms by (cases q) (auto simp: lstrip_def)

lemma lstrip_name:
  "sep \<notin> set f \<Longrightarrow> lstrip ''./'' f = dropWhile (\<lambda>c. c = CHR ''.'') f"
  unfolding lstrip_def by (rule dropWhile_cong) (auto simp: sep_def)

text \<open>Under well-formed names, the paths \<^verbatim>\<open>good_filepaths\<close> yields from \<^verbatim>\<open>.\<close>: a file
  of the current directory without its leading dots, or the kept directories, joined by
  separators, then the file name.\<close>

lemma yielded_shape:
  assumes "wf_dir t" "walk ''.'' t = Inr ps" "p \<in> set ps"
  shows "(\<exists>f. wf_name f \<and> good_file f \<and> p = dropWhile (\<lambda>c. c = CHR ''.'') f) \<or>
    (\<exists>segs f. segs \<noteq> [] \<and> (\<forall>s \<in> set segs. wf_name s \<and> \<not> hidden s)
        \<and> wf_name f \<and> good_file f \<and> p = str_join [sep] segs @ sep # f)"
proof -
  from walk_sound_both(1) [OF assms(2,3)] obtain dp fns subs f where
    v: "visited ''.'' t dp (Dir fns subs)" and f: "f \<in> set fns" "good_file f" and
    p: "p = lstrip ''./'' (join dp f)"
    by blast
  from visited_shape [OF v assms(1)] have w: "wf_dir (Dir fns subs)" and
    shape: "dp = ''.'' \<or>
      (\<exists>segs. segs \<noteq> [] \<and> (\<forall>s \<in> set segs. wf_name s \<and> \<not> hidden s)
         \<and> dp = ''./'' @ str_join [sep] segs)"
    by auto
  from wf_dir_file [OF w f(1)] have wf: "wf_name f" .
  then have nf: "sep \<notin> set f" by (simp add: wf_name_def)
  from shape show ?thesis
  proof
    assume "dp = ''.''"
    then have "p = dropWhile (\<lambda>c. c = CHR ''.'') f"
      using p nf by (simp add: lstrip_join_dot lstrip_name)
    with wf f(2) show ?thesis by blast
  next
    assume "\<exists>segs. segs \<noteq> [] \<and> (\<forall>s \<in> set segs. wf_name s \<and> \<not> hidden s)
         \<and> dp = ''./'' @ str_join [sep] segs"
    then obtain segs where s: "segs \<noteq> []" "\<forall>s \<in> set segs. wf_name s \<and> \<not> hidden s"
      and dp: "dp = ''./'' @ str_join [sep] segs"
      by blast
    have ne: "\<forall>x \<in> set segs. x \<noteq> []"
      using s(2) by (auto simp: wf_name_def)
    have q: "str_join [sep] segs \<noteq> []"
      by (rule str_join_not_Nil [OF s(1) ne])
    have "last segs \<in> set segs" using s(1) by simp
    then have "wf_name (last segs)" using s(2) by blast
    then have "last (last segs) \<noteq> sep"
      by (auto simp: wf_name_def dest: last_in_set)
    then have l: "last (str_join [sep] segs) \<noteq> sep"
      by (simp add: str_join_last [OF s(1) ne])
    have "hd segs \<in> set segs" using s(1) by simp
    then have h: "wf_name (hd segs)" "\<not> hidden (hd segs)" using s(2) by blast+
    then obtain c cs where c: "hd segs = c # cs"
      by (cases "hd segs") (auto simp: wf_name_def)
    from h c have "c \<noteq> CHR ''.''" "c \<noteq> CHR ''/''"
      by (auto simp: hidden_def wf_name_def sep_def)
    then have hq: "hd (str_join [sep] segs) \<noteq> CHR ''.''" "hd (str_join [sep] segs) \<noteq> CHR ''/''"
      using c s(1) by (simp_all add: str_join_hd)
    have "join dp f = ''./'' @ str_join [sep] segs @ sep # f"
      unfolding dp by (rule join_rel_name [OF wf q l])
    then have "p = str_join [sep] segs @ sep # f"
      using p by (simp only: lstrip_rel [OF q hq])
    with s wf f(2) show ?thesis by blast
  qed
qed

text \<open>With well-formed names the walk raises no error.\<close>

lemma walk_total_both:
  "wf_dir t \<Longrightarrow> \<exists>ps. walk dirpath t = Inr ps"
  "\<forall>x \<in> set ts. wf_name (fst x) \<and> wf_dir (snd x) \<Longrightarrow> \<exists>ps. walk_dirs dirpath ts = Inr ps"
proof (induction dirpath t and dirpath ts rule: walk_walk_dirs.induct)
  case (1 dirpath fns subs)
  have ne: "d \<noteq> []" if "(d, t) \<in> set subs" for d t
    using wf_dir_sub [OF "1.prems" that] by (simp add: wf_name_def)
  have k: "keep_dirnames subs = Inr (filter (\<lambda>x. \<not> hidden (fst x)) subs)"
    by (rule keep_dirnames_total) (rule ne)
  have "\<forall>x \<in> set (filter (\<lambda>x. \<not> hidden (fst x)) subs). wf_name (fst x) \<and> wf_dir (snd x)"
    using wf_dir_sub [OF "1.prems"] by auto
  from "1.IH" [OF k this] obtain below where
    "walk_dirs dirpath (filter (\<lambda>x. \<not> hidden (fst x)) subs) = Inr below"
    by blast
  then show ?case by (simp add: k)
next
  case (2 dirpath)
  show ?case by simp
next
  case (3 dirpath d t rest)
  from "3.prems" have "wf_dir t" by simp
  from "3.IH"(1) [OF this] obtain here where h: "walk (join dirpath d) t = Inr here"
    by blast
  from "3.prems" have "\<forall>x \<in> set rest. wf_name (fst x) \<and> wf_dir (snd x)" by simp
  from "3.IH"(2) [OF h this] obtain later where "walk_dirs dirpath rest = Inr later"
    by blast
  then show ?case by (simp add: h)
qed

lemma good_file_ext: "good_file f \<Longrightarrow> str_lower (snd (splitext f)) \<in> set fs_exts"
  by (simp add: good_file_def)

lemma good_file_name: "good_file f \<Longrightarrow> f \<noteq> ''mod.rs''"
  by (simp add: good_file_def)

text \<open>What the shape gives for a yielded path: its extension, its basename and the pieces
  of its directory portion.\<close>

lemma yielded_facts:
  assumes "wf_dir t" "walk ''.'' t = Inr ps" "p \<in> set ps"
  shows "str_lower (snd (splitext p)) \<in> set fs_exts"
    and "dirname p \<noteq> [] \<Longrightarrow> snd (path_split p) \<noteq> ''mod.rs''"
    and "seg \<in> set (split sep (dirname p)) \<Longrightarrow> \<not> hidden seg"
proof -
  from yielded_shape [OF assms] consider
    (top) f where "wf_name f" "good_file f" "p = dropWhile (\<lambda>c. c = CHR ''.'') f"
  | (nested) segs f where "segs \<noteq> []" "\<forall>s \<in> set segs. wf_name s \<and> \<not> hidden s"
      "wf_name f" "good_file f" "p = str_join [sep] segs @ sep # f"
    by blast
  then have "str_lower (snd (splitext p)) \<in> set fs_exts
      \<and> (dirname p \<noteq> [] \<longrightarrow> snd (path_split p) \<noteq> ''mod.rs'')
      \<and> (\<forall>seg \<in> set (split sep (dirname p)). \<not> hidden seg)"
  proof cases
    case top
    from top(1) have nf: "sep \<notin> set f" by (simp add: wf_name_def)
    then have "sep \<notin> set p"
      unfolding top(3) by (meson set_dropWhileD)
    then have d: "dirname p = []"
      by (simp add: dirname_def path_split_no_sep)
    have "snd (splitext p) = snd (splitext f)"
      unfolding top(3) by (rule splitext_strip_dots [OF nf])
    with good_file_ext [OF top(2)] d show ?thesis
      by (simp add: hidden_Nil)
  next
    case nested
    let ?q = "str_join [sep] segs"
    from nested(3) have nf: "sep \<notin> set f" by (simp add: wf_name_def)
    have ne: "\<forall>x \<in> set segs. x \<noteq> []"
      using nested(2) by (auto simp: wf_name_def)
    have ns: "\<forall>s \<in> set segs. sep \<notin> set s"
      using nested(2) by (auto simp: wf_name_def)
    have q: "?q \<noteq> []"
      by (rule str_join_not_Nil [OF nested(1) ne])
    have "last segs \<in> set segs" using nested(1) by simp
    then have "wf_name (last segs)" using nested(2) by blast
    then have "last (last segs) \<noteq> sep"
      by (auto simp: wf_name_def dest: last_in_set)
    then have l: "last ?q \<noteq> sep"
      by (simp add: str_join_last [OF nested(1) ne])
    have ps: "path_split p = (?q, f)"
      unfolding nested(5) by (rule path_split_under_dir [OF nf q l])
    have e: "snd (splitext p) = snd (splitext f)"
      unfolding nested(5) by (rule splitext_under_dir [OF nf])
    have s: "split sep (dirname p) = segs"
      by (simp add: dirname_def ps split_str_join [OF nested(1) ns])
    from good_file_ext [OF nested(4)] good_file_name [OF nested(4)] nested(2) show ?thesis
      by (simp add: e ps s)
  qed
  then show "str_lower (snd (splitext p)) \<in> set fs_exts"
    and "dirname p \<noteq> [] \<Longrightarrow> snd (path_split p) \<noteq> ''mod.rs''"
    and "seg \<in> set (split sep (dirname p)) \<Longrightarrow> \<not> hidden seg"
    by blast+
qed

lemma good_filepaths_upd: "good_filepaths ''.'' (fs(''.'' \<mapsto> t)) = walk ''.'' t"
  by (simp add: good_filepaths_def)

lemma good_filepaths_cwd:
  assumes "fs ''.'' = Some t"
  shows "good_filepaths ''.'' fs = walk ''.'' t"
  using assms by (simp add: good_filepaths_def)

lemma build_directory_md_cong:
  "good_filepaths ''.'' fs' = good_filepaths ''.'' fs \<Longrightarrow>
   build_directory_md top_dir fs' st = build_directory_md top_dir fs st"
  by (simp add: build_directory_md_def)

subsection \<open>The scenario of the two sorting files\<close>

text \<open>
  C1 (as stated, refuted). The claim gives the two entries as unindented bullets
  \<^verbatim>\<open>* [Bubble Sort](...)\<close>. The files lie in the directory \<^verbatim>\<open>sorting\<close>, so their
  indentation depth is 1 and the code renders each entry with one pair of spaces before
  the bullet: the returned document is not the one the claim spells out.
\<close>

theorem sorting_scenario_flat_refuted:
  "returned (build_directory_md ''.'' (cwd_only sorting_tree) init_state)
     \<noteq> Inr sorting_doc_flat"
  by code_simp

text \<open>
  C1 (amended). For the tree that holds exactly \<^verbatim>\<open>sorting/bubble_sort.rs\<close> and
  \<^verbatim>\<open>sorting/quick_sort.rs\<close>, a call on the empty accumulator returns the title line,
  a blank line, the heading \<^verbatim>\<open>## Sorting\<close> and the two entries in the order Bubble
  Sort, Quick Sort, each entry indented by two spaces, joined by newlines.
\<close>

theorem sorting_scenario:
  "returned (build_directory_md ''.'' (cwd_only sorting_tree) init_state) = Inr sorting_doc"
  by code_simp

subsection \<open>The starting directory\<close>

text \<open>
  C2. The claim says that \<^verbatim>\<open>build_directory_md(top_dir)\<close> indexes the subtree rooted at
  \<^verbatim>\<open>top_dir\<close>. The function takes the argument but calls \<^verbatim>\<open>good_filepaths()\<close>
  without it, so the walk always starts at \<^verbatim>\<open>"."\<close>. With the argument \<^verbatim>\<open>sorting\<close>,
  the returned document still lists \<^verbatim>\<open>searching/binary_search.rs\<close>, a file outside
  that subtree, while \<^verbatim>\<open>good_filepaths("sorting")\<close> itself yields the one file of the
  subtree.
\<close>

theorem top_dir_argument_ignored:
  "returned (build_directory_md ''sorting'' two_dirs_fs init_state) = Inr two_dirs_doc
   \<and> good_filepaths ''sorting'' two_dirs_fs = Inr [''sorting/bubble_sort.rs'']"
  by code_simp

subsection \<open>Running the script twice\<close>

text \<open>
  The document a call returns depends on the file system and on the contents of the
  accumulator it starts from, not on the argument and not on what was printed before.
\<close>

lemma same_accumulator_same_document:
  assumes "g_output st1 = g_output st2"
  shows "returned (build_directory_md top1 fs st1) = returned (build_directory_md top2 fs st2)"
proof (cases "good_filepaths ''.'' fs")
  case (Inl e)
  then show ?thesis by (simp add: build_directory_md_error)
next
  case (Inr paths)
  then show ?thesis
    using assms by (simp add: build_directory_md_lines returned_def)
qed

text \<open>
  Within one process the accumulator is not emptied between calls: a second call of
  \<^verbatim>\<open>build_directory_md\<close> returns the lines of the first call and then the same lines
  again. A run of the script is not such a call, since it starts by emptying the
  accumulator.
\<close>

lemma second_call_differs:
  "twice (cwd_only sorting_tree) = Inr (sorting_doc, sorting_doc_repeated)
   \<and> sorting_doc \<noteq> sorting_doc_repeated"
  by code_simp

lemma script_returned:
  "returned (script fs st) =
     (case returned (build_directory_md ''.'' fs (st\<lparr>g_output := []\<rparr>)) of
        Inl e \<Rightarrow> Inl e | Inr doc \<Rightarrow> Inr (doc @ [nl]))"
  by (simp add: script_def returned_def split: sum.splits prod.splits)

lemma script_independent_of_start:
  "returned (script fs st1) = returned (script fs st2)"
proof -
  have "returned (build_directory_md ''.'' fs (st1\<lparr>g_output := []\<rparr>))
      = returned (build_directory_md ''.'' fs (st2\<lparr>g_output := []\<rparr>))"
    by (rule same_accumulator_same_document) simp
  then show ?thesis by (simp only: script_returned)
qed

text \<open>
  C3. Running the script twice on an unchanged file system writes the same text both
  times: the second run, which starts from the state the first run ended in, returns
  what the first run returned (the same document, or the same error). This holds from
  every starting state, because each run empties the accumulator before it calls
  \<^verbatim>\<open>build_directory_md\<close> and the call reads nothing else of the state.
\<close>

theorem run_twice_same_output:
  "fst (run_twice fs st) = snd (run_twice fs st)"
proof (cases "script fs st")
  case (Inl e)
  then show ?thesis by (simp add: run_twice_def returned_def)
next
  case (Inr r)
  obtain out1 st1 where r: "r = (out1, st1)" by (cases r)
  have "returned (script fs st1) = returned (script fs st)"
    by (rule script_independent_of_start)
  then show ?thesis
    by (simp add: run_twice_def Inr r returned_def)
qed

subsection \<open>The order of the entries\<close>

text \<open>
  C6. A call that returns has appended, for each yielded path in the order \<open>ps\<close> of
  \<^verbatim>\<open>sorted(..., key=str.lower)\<close>, the directory lines of that path and then its entry.
  In that order the lower-cased paths ascend: whenever the entry of \<open>ps ! i\<close> precedes
  that of \<open>ps ! j\<close>, \<open>str_lower (ps ! i) \<le> str_lower (ps ! j)\<close>.
\<close>

theorem entries_in_lowercase_order:
  assumes "build_directory_md top_dir fs st = Inr (doc, st')"
  shows "\<exists>paths. good_filepaths ''.'' fs = Inr paths \<and>
           (let ps = sort_key str_lower paths
            in g_output st' = g_output st @ concat (map (file_lines_at ps) [0..<length ps])
               \<and> (\<forall>i j. i < j \<and> j < length ps \<longrightarrow> str_lower (ps ! i) \<le> str_lower (ps ! j)))"
proof -
  from build_directory_md_Inr [OF assms] obtain paths where
    p: "good_filepaths ''.'' fs = Inr paths" and
    g: "g_output st' = g_output st
          @ concat (map (file_lines_at (sort_key str_lower paths))
                     [0..<length (sort_key str_lower paths)])"
    by blast
  have "sorted (map str_lower (sort_key str_lower paths))"
    by (rule sorted_sort_key)
  then have "\<forall>i j. i < j \<and> j < length (sort_key str_lower paths) \<longrightarrow>
      str_lower (sort_key str_lower paths ! i) \<le> str_lower (sort_key str_lower paths ! j)"
    by (auto simp: sorted_iff_nth_mono_less)
  with p g show ?thesis by (simp add: Let_def)
qed

theorem entries_in_lowercase_order_witness:
  "build_directory_md ''.'' (cwd_only sorting_tree) init_state = Inr (sorting_doc, sorting_state)
   \<and> str_lower ''sorting/bubble_sort.rs'' \<le> str_lower ''sorting/quick_sort.rs''"
proof -
  from entries_in_lowercase_order [OF sorting_run] sorting_paths
  have "\<forall>i j. i < j \<and> j < length [''sorting/bubble_sort.rs'', ''sorting/quick_sort.rs'']
          \<longrightarrow> str_lower ([''sorting/bubble_sort.rs'', ''sorting/quick_sort.rs''] ! i)
              \<le> str_lower ([''sorting/bubble_sort.rs'', ''sorting/quick_sort.rs''] ! j)"
    unfolding Let_def by (auto simp only: sum.inject sorting_order)
  from this [rule_format, of 0 1]
  have "str_lower ''sorting/bubble_sort.rs'' \<le> str_lower ''sorting/quick_sort.rs''"
    by simp
  with sorting_run show ?thesis by (rule conjI)
qed

subsection \<open>Depth and prefix of an entry\<close>

text \<open>
  C7. The line appended last for a path is its entry, and the entry starts with the
  prefix of its depth: 0 for a path with no directory portion, otherwise the number of
  separators in the directory portion plus one. The prefix of depth 0 is a newline
  followed by \<^verbatim>\<open>##\<close>; the prefix of a depth \<open>d \<ge> 1\<close> is \<open>d\<close> pairs of spaces
  followed by \<^verbatim>\<open>*\<close>.
\<close>

theorem entry_indent_and_prefix:
  "last (g_output (snd (file_step p (old_path, st)))) = entry_line p
   \<and> (\<exists>rest. entry_line p =
         md_prefix (if dirname p = [] then 0 else count (dirname p) sep + 1) @ rest)
   \<and> md_prefix 0 = nl # ''##''
   \<and> (1 \<le> d \<longrightarrow> md_prefix d = replicate (2 * d) (CHR '' '') @ ''*'')"
proof -
  have a: "last (g_output (snd (file_step p (old_path, st)))) = entry_line p"
    by (simp add: file_step_lines g_output_emit_all)
  have b: "\<exists>rest. entry_line p =
         md_prefix (if dirname p = [] then 0 else count (dirname p) sep + 1) @ rest"
    by (cases "path_split p") (simp add: entry_line_def indent_of_def dirname_def)
  show ?thesis
    using a b md_prefix_0 md_prefix_pos by blast
qed

theorem entry_indent_and_prefix_witness:
  "(1::nat) \<le> 2
   \<and> last (g_output (snd (file_step ''a/b/c_d.rs'' ([], init_state))))
       = ''    * [C D]('' @ URL_BASE @ ''/a/b/c_d.rs)''
   \<and> md_prefix 2 = ''    *''"
proof -
  have e: "entry_line ''a/b/c_d.rs'' = ''    * [C D]('' @ URL_BASE @ ''/a/b/c_d.rs)''"
    by code_simp
  have r: "replicate (2 * 2) (CHR '' '') @ ''*'' = ''    *''"
    by code_simp
  from entry_indent_and_prefix [of "''a/b/c_d.rs''" "[]" init_state 2]
  show ?thesis by (simp only: e r) simp
qed

subsection \<open>When a top-level heading is emitted\<close>

text \<open>
  C8. In the sorted processing order, the directory lines emitted for the \<open>k\<close>-th
  path contain a heading (a line of depth 0) exactly when the top-level segment of the
  path's directory differs from that of the cursor, which is the directory of the path
  before (empty at the start), and is not empty.
\<close>

theorem heading_iff_top_segment_changes:
  assumes "build_directory_md top_dir fs st = Inr (doc, st')"
  shows "\<exists>paths. good_filepaths ''.'' fs = Inr paths \<and>
           (let ps = sort_key str_lower paths
            in g_output st' = g_output st @ concat (map (file_lines_at ps) [0..<length ps])
               \<and> (\<forall>k<length ps.
                    (\<exists>l \<in> set (dir_lines (cursor_at ps k) (dirname (ps ! k))). is_heading l)
                    \<longleftrightarrow> top_segment (dirname (ps ! k)) \<noteq> top_segment (cursor_at ps k)
                         \<and> top_segment (dirname (ps ! k)) \<noteq> []))"
proof -
  from build_directory_md_Inr [OF assms] obtain paths where
    p: "good_filepaths ''.'' fs = Inr paths" and
    g: "g_output st' = g_output st
          @ concat (map (file_lines_at (sort_key str_lower paths))
                     [0..<length (sort_key str_lower paths)])"
    by blast
  show ?thesis
    using p g by (simp add: Let_def dir_lines_heading_iff)
qed

theorem heading_iff_top_segment_changes_witness:
  "build_directory_md ''.'' (cwd_only sorting_tree) init_state = Inr (sorting_doc, sorting_state)
   \<and> (\<exists>l \<in> set (dir_lines [] ''sorting''). is_heading l)
   \<and> top_segment ''sorting'' \<noteq> top_segment []
   \<and> \<not> (\<exists>l \<in> set (dir_lines ''sorting'' ''sorting''). is_heading l)"
proof -
  let ?ps = "[''sorting/bubble_sort.rs'', ''sorting/quick_sort.rs'']"
  from heading_iff_top_segment_changes [OF sorting_run] obtain paths where
    p: "good_filepaths ''.'' (cwd_only sorting_tree) = Inr paths" and
    q: "let ps = sort_key str_lower paths
        in g_output sorting_state
             = g_output init_state @ concat (map (file_lines_at ps) [0..<length ps])
           \<and> (\<forall>k<length ps.
                (\<exists>l \<in> set (dir_lines (cursor_at ps k) (dirname (ps ! k))). is_heading l)
                \<longleftrightarrow> top_segment (dirname (ps ! k)) \<noteq> top_segment (cursor_at ps k)
                     \<and> top_segment (dirname (ps ! k)) \<noteq> [])"
    by blast
  from p sorting_paths
  have pe: "paths = [''sorting/quick_sort.rs'', ''sorting/bubble_sort.rs'']" by simp
  note all = q [unfolded pe Let_def sorting_order, THEN conjunct2]
  have d: "dirname ''sorting/bubble_sort.rs'' = ''sorting''"
      "dirname ''sorting/quick_sort.rs'' = ''sorting''"
    by code_simp+
  have t: "top_segment ''sorting'' = ''sorting''" "top_segment [] = []"
    by code_simp+
  from all [rule_format, of 0] have k0: "\<exists>l \<in> set (dir_lines [] ''sorting''). is_heading l"
    by (simp add: cursor_at_def d t)
  from all [rule_format, of 1]
  have k1: "\<not> (\<exists>l \<in> set (dir_lines ''sorting'' ''sorting''). is_heading l)"
    by (simp add: cursor_at_def d t)
  from sorting_run k0 k1 t show ?thesis by simp
qed

subsection \<open>Upper-case extensions and names\<close>

text \<open>
  C9. The extension test lower-cases the extension before it looks it up; the test
  against \<^verbatim>\<open>mod.rs\<close> compares the name as it is. So a file in any directory the walk
  reaches, whose name is not exactly \<^verbatim>\<open>mod.rs\<close> and whose extension lower-cases to
  \<^verbatim>\<open>.rs\<close>, is yielded by \<^verbatim>\<open>good_filepaths\<close> and has its entry in the output;
  \<^verbatim>\<open>Mod.rs\<close>, \<^verbatim>\<open>MOD.RS\<close>, \<^verbatim>\<open>x.RS\<close> and \<^verbatim>\<open>x.Rs\<close> are such names
  (\<open>odd_case_names\<close>).
\<close>

theorem case_insensitive_extension:
  assumes "build_directory_md top_dir fs st = Inr (doc, st')"
    and "fs ''.'' = Some t"
    and "visited ''.'' t dirpath (Dir fns subs)"
    and "f \<in> set fns"
    and "f \<noteq> ''mod.rs''"
    and "str_lower (snd (splitext f)) = ''.rs''"
  shows "\<exists>paths. good_filepaths ''.'' fs = Inr paths
           \<and> lstrip ''./'' (join dirpath f) \<in> set paths
           \<and> entry_line (lstrip ''./'' (join dirpath f)) \<in> set (g_output st')"
proof -
  from assms(1) obtain paths where p: "good_filepaths ''.'' fs = Inr paths"
    by (rule good_filepaths_of_build)
  then have w: "walk ''.'' t = Inr paths"
    by (simp add: good_filepaths_def assms(2))
  have "good_file f"
    using assms(5,6) by (simp add: good_file_def fs_exts_def)
  from walk_complete [OF w assms(3,4) this]
  have m: "lstrip ''./'' (join dirpath f) \<in> set paths" .
  from entry_in_output [OF assms(1) p m] p m show ?thesis by blast
qed

theorem case_insensitive_extension_witness:
  "build_directory_md ''.'' (cwd_only odd_names_tree) init_state
     = Inr (odd_names_doc, odd_names_state)
   \<and> ''Mod.rs'' \<noteq> ''mod.rs''
   \<and> str_lower (snd (splitext ''Mod.rs'')) = ''.rs''
   \<and> ''  * [Mod]('' @ URL_BASE @ ''/src/Mod.rs)'' \<in> set (g_output odd_names_state)"
proof -
  have fs: "cwd_only odd_names_tree ''.'' = Some odd_names_tree"
    by (simp add: cwd_only_def)
  have ne: "''Mod.rs'' \<noteq> ''mod.rs''" by simp
  have ext: "str_lower (snd (splitext ''Mod.rs'')) = ''.rs''" by code_simp
  have p: "lstrip ''./'' (join ''./src'' ''Mod.rs'') = ''src/Mod.rs''" by code_simp
  have e: "entry_line ''src/Mod.rs'' = ''  * [Mod]('' @ URL_BASE @ ''/src/Mod.rs)''"
    by code_simp
  have mem: "''Mod.rs'' \<in> set [''Mod.rs'', ''x.Rs'', ''mod.rs'']" by simp
  from case_insensitive_extension [OF odd_names_run fs odd_names_src_visited mem ne ext]
  have "entry_line (lstrip ''./'' (join ''./src'' ''Mod.rs'')) \<in> set (g_output odd_names_state)"
    by blast
  then have "''  * [Mod]('' @ URL_BASE @ ''/src/Mod.rs)'' \<in> set (g_output odd_names_state)"
    by (simp only: p e)
  with odd_names_run ne ext show ?thesis by blast
qed

subsection \<open>Leading dots of a top-level file name\<close>

text \<open>
  C10. \<^verbatim>\<open>lstrip("./")\<close> removes every leading \<^verbatim>\<open>.\<close> and \<^verbatim>\<open>/\<close>, not the prefix
  \<^verbatim>\<open>./\<close> alone. For a file \<open>f\<close> of the current directory that passes the filter, the
  path yielded is \<open>f\<close> without all its leading dots (and slashes), and the entry in the
  output, with its link and display name, is the entry of that shortened path:
  \<^verbatim>\<open>..a.rs\<close> is listed as \<^verbatim>\<open>a.rs\<close>.
\<close>

theorem leading_dots_stripped:
  assumes "build_directory_md top_dir fs st = Inr (doc, st')"
    and "fs ''.'' = Some (Dir fns subs)"
    and "f \<in> set fns"
    and "good_file f"
  shows "\<exists>paths. good_filepaths ''.'' fs = Inr paths
           \<and> dropWhile (\<lambda>c. c = CHR ''.'' \<or> c = CHR ''/'') f \<in> set paths
           \<and> entry_line (dropWhile (\<lambda>c. c = CHR ''.'' \<or> c = CHR ''/'') f)
               \<in> set (g_output st')"
proof -
  from assms(1) obtain paths where p: "good_filepaths ''.'' fs = Inr paths"
    by (rule good_filepaths_of_build)
  then have w: "walk ''.'' (Dir fns subs) = Inr paths"
    by (simp add: good_filepaths_def assms(2))
  have "visited ''.'' (Dir fns subs) ''.'' (Dir fns subs)"
    by (rule visited.root)
  from walk_complete [OF w this assms(3,4)]
  have "lstrip ''./'' f \<in> set paths"
    by (simp add: lstrip_join_dot)
  moreover have "lstrip ''./'' f = dropWhile (\<lambda>c. c = CHR ''.'' \<or> c = CHR ''/'') f"
    by (simp add: lstrip_def)
  ultimately have m: "dropWhile (\<lambda>c. c = CHR ''.'' \<or> c = CHR ''/'') f \<in> set paths"
    by simp
  from entry_in_output [OF assms(1) p m] p m show ?thesis by blast
qed

theorem leading_dots_stripped_witness:
  "build_directory_md ''.'' (cwd_only odd_names_tree) init_state
     = Inr (odd_names_doc, odd_names_state)
   \<and> good_file ''..a.rs''
   \<and> good_filepaths ''.'' (cwd_only odd_names_tree)
       = Inr [''MOD.RS'', ''a.rs'', ''src/Mod.rs'', ''src/x.Rs'']
   \<and> ''a.rs'' \<in> set [''MOD.RS'', ''a.rs'', ''src/Mod.rs'', ''src/x.Rs'']
   \<and> nl # ''## [A]('' @ URL_BASE @ ''//a.rs)'' \<in> set (g_output odd_names_state)"
proof -
  have fs: "cwd_only odd_names_tree ''.''
      = Some (Dir [''MOD.RS'', ''..a.rs'', ''mod.rs'']
                  [(''src'', Dir [''Mod.rs'', ''x.Rs'', ''mod.rs''] [])])"
    by (simp add: cwd_only_def odd_names_tree_def)
  have g: "good_file ''..a.rs''" by code_simp
  have ps: "good_filepaths ''.'' (cwd_only odd_names_tree)
      = Inr [''MOD.RS'', ''a.rs'', ''src/Mod.rs'', ''src/x.Rs'']"
    by code_simp
  have d: "dropWhile (\<lambda>c. c = CHR ''.'' \<or> c = CHR ''/'') ''..a.rs'' = ''a.rs''"
    by simp
  have e: "entry_line ''a.rs'' = nl # ''## [A]('' @ URL_BASE @ ''//a.rs)''"
    by code_simp
  have mem: "''..a.rs'' \<in> set [''MOD.RS'', ''..a.rs'', ''mod.rs'']" by simp
  from leading_dots_stripped [OF odd_names_run fs mem g]
  have "\<exists>paths. good_filepaths ''.'' (cwd_only odd_names_tree) = Inr paths
          \<and> ''a.rs'' \<in> set paths
          \<and> entry_line ''a.rs'' \<in> set (g_output odd_names_state)"
    by (simp only: d)
  with ps e have "''a.rs'' \<in> set [''MOD.RS'', ''a.rs'', ''src/Mod.rs'', ''src/x.Rs'']
      \<and> nl # ''## [A]('' @ URL_BASE @ ''//a.rs)'' \<in> set (g_output odd_names_state)"
    by auto
  with odd_names_run g ps show ?thesis by blast
qed

subsection \<open>Hidden directories\<close>

text \<open>
  C5. Directories whose name starts with \<^verbatim>\<open>.\<close> or \<^verbatim>\<open>_\<close> are skipped with all they
  hold. Whatever the tree \<open>t\<close> of the current directory, the yielded paths (or the error)
  and the document are those of \<open>prune t\<close>, the tree without these directories at every
  level: nothing below them reaches the output. And when the names of \<open>t\<close> are
  well-formed, the walk yields its paths, and no piece of the directory portion of a
  yielded path starts with \<^verbatim>\<open>.\<close> or \<^verbatim>\<open>_\<close>.
\<close>

theorem hidden_directories_skipped:
  assumes "fs ''.'' = Some t"
  shows "good_filepaths ''.'' (fs(''.'' \<mapsto> prune t)) = good_filepaths ''.'' fs
     \<and> build_directory_md top_dir (fs(''.'' \<mapsto> prune t)) st = build_directory_md top_dir fs st
     \<and> (wf_dir t \<longrightarrow>
          (\<exists>paths. good_filepaths ''.'' fs = Inr paths
             \<and> (\<forall>p \<in> set paths. \<forall>seg \<in> set (split sep (dirname p)). \<not> hidden seg)))"
proof -
  have a: "good_filepaths ''.'' (fs(''.'' \<mapsto> prune t)) = good_filepaths ''.'' fs"
    using assms by (simp add: good_filepaths_upd good_filepaths_cwd walk_prune_both(1))
  have b: "build_directory_md top_dir (fs(''.'' \<mapsto> prune t)) st
      = build_directory_md top_dir fs st"
    by (rule build_directory_md_cong [OF a])
  have c: "\<exists>paths. good_filepaths ''.'' fs = Inr paths
             \<and> (\<forall>p \<in> set paths. \<forall>seg \<in> set (split sep (dirname p)). \<not> hidden seg)"
    if w: "wf_dir t"
  proof -
    from walk_total_both(1) [OF w] obtain ps where ps: "walk ''.'' t = Inr ps"
      by blast
    have "\<forall>p \<in> set ps. \<forall>seg \<in> set (split sep (dirname p)). \<not> hidden seg"
      using yielded_facts(3) [OF w ps] by blast
    with ps show ?thesis
      using assms by (simp add: good_filepaths_cwd)
  qed
  from a b c show ?thesis by blast
qed

theorem hidden_directories_skipped_witness:
  "cwd_only hidden_dirs_tree ''.'' = Some hidden_dirs_tree
   \<and> wf_dir hidden_dirs_tree
   \<and> prune hidden_dirs_tree = Dir [''a.rs''] [(''src'', Dir [''b.rs''] [])]
   \<and> good_filepaths ''.'' (cwd_only hidden_dirs_tree) = Inr [''a.rs'', ''src/b.rs'']
   \<and> good_filepaths ''.'' ((cwd_only hidden_dirs_tree)(''.'' \<mapsto> prune hidden_dirs_tree))
       = Inr [''a.rs'', ''src/b.rs'']
   \<and> split sep (dirname ''src/b.rs'') = [''src'']
   \<and> \<not> hidden ''src''"
proof -
  have fs: "cwd_only hidden_dirs_tree ''.'' = Some hidden_dirs_tree"
    by (simp add: cwd_only_def)
  have w: "wf_dir hidden_dirs_tree" by code_simp
  have pr: "prune hidden_dirs_tree = Dir [''a.rs''] [(''src'', Dir [''b.rs''] [])]"
    by code_simp
  have ps: "good_filepaths ''.'' (cwd_only hidden_dirs_tree) = Inr [''a.rs'', ''src/b.rs'']"
    by code_simp
  have s: "split sep (dirname ''src/b.rs'') = [''src'']" by code_simp
  note h = hidden_directories_skipped
    [where fs = "cwd_only hidden_dirs_tree" and t = hidden_dirs_tree
       and top_dir = "''.''" and st = init_state, OF fs]
  from h have e: "good_filepaths ''.'' ((cwd_only hidden_dirs_tree)(''.'' \<mapsto> prune hidden_dirs_tree))
      = Inr [''a.rs'', ''src/b.rs'']"
    by (simp only: ps)
  from h w obtain paths where
    p: "good_filepaths ''.'' (cwd_only hidden_dirs_tree) = Inr paths" and
    q: "\<forall>p \<in> set paths. \<forall>seg \<in> set (split sep (dirname p)). \<not> hidden seg"
    by blast
  from p ps have "paths = [''a.rs'', ''src/b.rs'']" by simp
  with q have "\<forall>seg \<in> set (split sep (dirname ''src/b.rs'')). \<not> hidden seg" by simp
  then have n: "\<not> hidden ''src''" by (simp only: s) simp
  from fs w pr ps e s n show ?thesis by blast
qed

subsection \<open>Extensions and the name mod.rs\<close>

text \<open>
  C4, as stated, fails: from a current directory holding \<^verbatim>\<open>X.RS\<close> and \<^verbatim>\<open>.mod.rs\<close>
  the paths yielded are \<^verbatim>\<open>X.RS\<close>, whose extension \<^verbatim>\<open>.RS\<close> is not in the allow-list,
  and \<^verbatim>\<open>mod.rs\<close>, whose basename is the excluded name.
\<close>

theorem yielded_extension_and_basename_refuted:
  "good_filepaths ''.'' (cwd_only dotted_tree) = Inr [''X.RS'', ''mod.rs'']
   \<and> snd (splitext ''X.RS'') = ''.RS''
   \<and> ''.RS'' \<notin> set fs_exts
   \<and> snd (path_split ''mod.rs'') = ''mod.rs''"
  by code_simp

text \<open>
  C4, amended. When the names of the tree \<open>t\<close> of the current directory are well-formed,
  the walk yields its paths; the extension of every yielded path, lower-cased, is in the
  allow-list; every yielded path with a directory portion has a basename other than
  \<^verbatim>\<open>mod.rs\<close>; and the files named \<^verbatim>\<open>mod.rs\<close> never reach the output: the yielded
  paths and the document are those of \<open>remove_mod t\<close>, the tree without them at every
  level.
\<close>

theorem yielded_paths_filtered:
  assumes "fs ''.'' = Some t" and "wf_dir t"
  shows "\<exists>paths. good_filepaths ''.'' fs = Inr paths
     \<and> (\<forall>p \<in> set paths. str_lower (snd (splitext p)) \<in> set fs_exts
           \<and> (dirname p \<noteq> [] \<longrightarrow> snd (path_split p) \<noteq> ''mod.rs''))
     \<and> good_filepaths ''.'' (fs(''.'' \<mapsto> remove_mod t)) = Inr paths
     \<and> build_directory_md top_dir (fs(''.'' \<mapsto> remove_mod t)) st
         = build_directory_md top_dir fs st"
proof -
  from walk_total_both(1) [OF assms(2)] obtain ps where ps: "walk ''.'' t = Inr ps"
    by blast
  then have g: "good_filepaths ''.'' fs = Inr ps"
    using assms(1) by (simp add: good_filepaths_cwd)
  have a: "good_filepaths ''.'' (fs(''.'' \<mapsto> remove_mod t)) = good_filepaths ''.'' fs"
    using assms(1) by (simp add: good_filepaths_upd good_filepaths_cwd walk_remove_mod_both(1))
  have b: "build_directory_md top_dir (fs(''.'' \<mapsto> remove_mod t)) st
      = build_directory_md top_dir fs st"
    by (rule build_directory_md_cong [OF a])
  have c: "\<forall>p \<in> set ps. str_lower (snd (splitext p)) \<in> set fs_exts
           \<and> (dirname p \<noteq> [] \<longrightarrow> snd (path_split p) \<noteq> ''mod.rs'')"
    using yielded_facts(1,2) [OF assms(2) ps] by blast
  from g a b c show ?thesis by simp
qed

theorem yielded_paths_filtered_witness:
  "cwd_only odd_names_tree ''.'' = Some odd_names_tree
   \<and> wf_dir odd_names_tree
   \<and> good_filepaths ''.'' (cwd_only odd_names_tree)
       = Inr [''MOD.RS'', ''a.rs'', ''src/Mod.rs'', ''src/x.Rs'']
   \<and> str_lower (snd (splitext ''src/x.Rs'')) \<in> set fs_exts
   \<and> dirname ''src/x.Rs'' = ''src''
   \<and> snd (path_split ''src/x.Rs'') \<noteq> ''mod.rs''
   \<and> remove_mod odd_names_tree = Dir [''MOD.RS'', ''..a.rs''] [(''src'', Dir [''Mod.rs'', ''x.Rs''] [])]
   \<and> good_filepaths ''.'' ((cwd_only odd_names_tree)(''.'' \<mapsto> remove_mod odd_names_tree))
       = Inr [''MOD.RS'', ''a.rs'', ''src/Mod.rs'', ''src/x.Rs'']"
proof -
  have fs: "cwd_only odd_names_tree ''.'' = Some odd_names_tree"
    by (simp add: cwd_only_def)
  have w: "wf_dir odd_names_tree" by code_simp
  have ps: "good_filepaths ''.'' (cwd_only odd_names_tree)
      = Inr [''MOD.RS'', ''a.rs'', ''src/Mod.rs'', ''src/x.Rs'']"
    by code_simp
  have d: "dirname ''src/x.Rs'' = ''src''" by code_simp
  have r: "remove_mod odd_names_tree
      = Dir [''MOD.RS'', ''..a.rs''] [(''src'', Dir [''Mod.rs'', ''x.Rs''] [])]"
    by code_simp
  from yielded_paths_filtered
    [where fs = "cwd_only odd_names_tree" and t = odd_names_tree
       and top_dir = "''.''" and st = init_state, OF fs w]
  obtain paths where
    p: "good_filepaths ''.'' (cwd_only odd_names_tree) = Inr paths" and
    q: "\<forall>p \<in> set paths. str_lower (snd (splitext p)) \<in> set fs_exts
           \<and> (dirname p \<noteq> [] \<longrightarrow> snd (path_split p) \<noteq> ''mod.rs'')" and
    e: "good_filepaths ''.'' ((cwd_only odd_names_tree)(''.'' \<mapsto> remove_mod odd_names_tree))
          = Inr paths"
    by blast
  from p ps have pe: "paths = [''MOD.RS'', ''a.rs'', ''src/Mod.rs'', ''src/x.Rs'']" by simp
  from q have x: "str_lower (snd (splitext ''src/x.Rs'')) \<in> set fs_exts"
      "dirname ''src/x.Rs'' \<noteq> [] \<longrightarrow> snd (path_split ''src/x.Rs'') \<noteq> ''mod.rs''"
    unfolding pe by simp_all
  from x(2) have n: "snd (path_split ''src/x.Rs'') \<noteq> ''mod.rs''"
    by (simp only: d) simp
  from fs w ps x(1) d n r e [unfolded pe] show ?thesis by blast
qed

end
